theory Spec2Isabelle
  imports Main "HOL-Library.Word" "HOL-Library.Multiset"
begin

section \<open>The histogram of hist-bst.c\<close>

text \<open>
  A shallow embedding of the BST histogram (\<^verbatim>\<open>hist-bst.c\<close>) and of the row filter
  (\<^verbatim>\<open>omp-median-filter-2D-sparse.c\<close>).

  \<^item> \<^verbatim>\<open>data_t\<close> is \<^verbatim>\<open>uint8_t\<close>, \<^verbatim>\<open>uint16_t\<close> or \<^verbatim>\<open>uint32_t\<close> (\<^verbatim>\<open>common.h\<close>): a key is a
    \<open>'w word\<close>, for any width \<open>'w\<close>.
  \<^item> The C \<^verbatim>\<open>int\<close> fields and arguments are HOL integers. Signed overflow is undefined in
    C, so the model describes the executions in which no count, sum of counts or buffer
    index leaves the range of \<^verbatim>\<open>int\<close> (\<open>is_c_int\<close> below); the claims that depend on that
    range state it.
  \<^item> The \<^verbatim>\<open>Makefile\<close> compiles every C file with \<^verbatim>\<open>-DNDEBUG\<close>, so \<^verbatim>\<open>assert\<close> expands to
    nothing in the program that is built: the constant \<open>NDEBUG\<close> is \<open>True\<close>, and the
    assertions of the source are written under \<open>\<not> NDEBUG\<close>. What remains as the \<open>Inl\<close>
    branch of a result is undefined behaviour: a read through a null pointer, or an access
    outside a buffer.
  \<^item> A \<^verbatim>\<open>HistNode *\<close> is a tree: \<open>Null\<close> is the null pointer, \<open>Node\<close> carries the
    fields \<^verbatim>\<open>key\<close>, \<^verbatim>\<open>count\<close>, \<^verbatim>\<open>counts\<close>, \<^verbatim>\<open>left\<close>, \<^verbatim>\<open>right\<close> in the order of the struct.
    The \<^verbatim>\<open>parent\<close> field is the list of frames above a node (the node's ancestors, the
    nearest first): following \<^verbatim>\<open>n->parent\<close> plugs the node into the first frame.
\<close>

datatype error =
    Assert_c_nonneg           \<comment> \<open>\<^verbatim>\<open>assert(c>=0)\<close>\<close>
  | Assert_count_nonneg       \<comment> \<open>\<^verbatim>\<open>assert(n->count >= 0)\<close> in \<^verbatim>\<open>hist_delete\<close>\<close>
  | Assert_not_null           \<comment> \<open>\<^verbatim>\<open>assert(n != NULL)\<close>\<close>
  | Assert_counts_ge_target   \<comment> \<open>\<^verbatim>\<open>assert(n->counts >= target)\<close> in \<^verbatim>\<open>hist_median\<close>\<close>
  | Assert_ndims              \<comment> \<open>\<^verbatim>\<open>assert(ndims == 2)\<close>\<close>
  | Null_dereference          \<comment> \<open>a read through a null pointer (undefined behaviour in C)\<close>
  | Out_of_bounds             \<comment> \<open>an access outside a buffer (undefined behaviour in C)\<close>

text \<open>\<^verbatim>\<open>CFLAGS+=-std=c99 -Wall -Wpedantic -fopenmp -O2 -DNDEBUG\<close> in the \<^verbatim>\<open>Makefile\<close>.\<close>

definition NDEBUG :: bool where
  "NDEBUG = True"

text \<open>\<^verbatim>\<open>assert(p != NULL)\<close> followed by a read of a field of \<open>p\<close>, when \<open>p\<close> is null: the
  assertion fails if it is compiled in, and the read is undefined otherwise.\<close>

definition null_read :: error where
  "null_read = (if \<not> NDEBUG then Assert_not_null else Null_dereference)"

type_synonym 'w data_t = "'w word"

text \<open>The node and histogram types take the key type as their parameter; every function
  below uses them at \<open>'w data_t\<close>.\<close>

datatype 'k HistNode =
    Null
  | Node 'k int int "'k HistNode" "'k HistNode"

record 'k Hist =
  root :: "'k HistNode"

text \<open>A frame is a parent seen from one of its children: the parent's fields and its other
  child.\<close>

datatype 'k Frame =
    LeftOf 'k int int "'k HistNode"    \<comment> \<open>the child is \<^verbatim>\<open>left\<close>; the subtree kept is \<^verbatim>\<open>right\<close>\<close>
  | RightOf 'k int int "'k HistNode"   \<comment> \<open>the child is \<^verbatim>\<open>right\<close>; the subtree kept is \<^verbatim>\<open>left\<close>\<close>

fun plug :: "'w data_t Frame \<Rightarrow> 'w data_t HistNode \<Rightarrow> 'w data_t HistNode" where
  "plug (LeftOf k c cs r) n = Node k c cs n r"
| "plug (RightOf k c cs l) n = Node k c cs l n"

text \<open>The tree \<^verbatim>\<open>H->root\<close> points to, given a node and its ancestors.\<close>

fun rebuild :: "'w data_t HistNode \<Rightarrow> 'w data_t Frame list \<Rightarrow> 'w data_t HistNode" where
  "rebuild n [] = n"
| "rebuild n (f # fs) = rebuild (plug f n) fs"

text \<open>\<^verbatim>\<open>p->counts\<close> behind the test \<^verbatim>\<open>p != NULL\<close>, as \<^verbatim>\<open>update_counts\<close> and
  \<^verbatim>\<open>hist_median\<close> read it: a null child adds nothing.\<close>

fun counts_or_0 :: "'w data_t HistNode \<Rightarrow> int" where
  "counts_or_0 Null = 0"
| "counts_or_0 (Node k c cs l r) = cs"

text \<open>\<^verbatim>\<open>update_counts\<close>: the flag returned and the node with its \<^verbatim>\<open>counts\<close> recomputed.\<close>

fun update_counts :: "'w data_t HistNode \<Rightarrow> bool \<times> 'w data_t HistNode" where
  "update_counts Null = (False, Null)"
| "update_counts (Node k c cs l r) =
     (let old_counts = cs;
          new_counts = c + counts_or_0 l + counts_or_0 r
      in (old_counts \<noteq> new_counts, Node k c new_counts l r))"

text \<open>\<^verbatim>\<open>while (update_counts(n)) n = n->parent;\<close> The result is the whole tree. At the
  root \<^verbatim>\<open>n->parent\<close> is null and \<^verbatim>\<open>update_counts(NULL)\<close> ends the loop.\<close>

fun update_counts_to_root :: "'w data_t HistNode \<Rightarrow> 'w data_t Frame list \<Rightarrow> 'w data_t HistNode" where
  "update_counts_to_root n [] = snd (update_counts n)"
| "update_counts_to_root n (f # fs) =
     (if fst (update_counts n)
      then update_counts_to_root (plug f (snd (update_counts n))) fs
      else rebuild (snd (update_counts n)) (f # fs))"

definition hist_new_node :: "'w data_t \<Rightarrow> int \<Rightarrow> 'w data_t HistNode \<Rightarrow> 'w data_t HistNode \<Rightarrow> 'w data_t HistNode" where
  "hist_new_node k c l r = Node k c (- 1) l r"

definition hist_create :: "'w data_t Hist" where
  "hist_create = \<lparr> root = Null \<rparr>"

definition hist_clear :: "'w data_t Hist \<Rightarrow> 'w data_t Hist" where
  "hist_clear H = H \<lparr> root := Null \<rparr>"

fun hist_insert_rec :: "'w::len data_t HistNode \<Rightarrow> 'w data_t \<Rightarrow> int \<Rightarrow> 'w data_t HistNode" where
  "hist_insert_rec Null k c = snd (update_counts (hist_new_node k c Null Null))"
| "hist_insert_rec (Node key cnt cs l r) k c =
     snd (update_counts
       (if k < key then Node key cnt cs (hist_insert_rec l k c) r
        else if k > key then Node key cnt cs l (hist_insert_rec r k c)
        else Node key (cnt + c) cs l r))"

definition hist_insert :: "'w::len data_t Hist \<Rightarrow> 'w data_t \<Rightarrow> int \<Rightarrow> error + 'w data_t Hist" where
  "hist_insert H k c =
     (if \<not> NDEBUG \<and> \<not> c \<ge> 0 then Inl Assert_c_nonneg
      else if c > 0 then Inr (H \<lparr> root := hist_insert_rec (root H) k c \<rparr>)
      else Inr H)"

text \<open>\<^verbatim>\<open>hist_lookup\<close>: the node found (or \<open>Null\<close>) with its ancestors.\<close>

fun hist_lookup_from :: "'w::len data_t HistNode \<Rightarrow> 'w data_t Frame list \<Rightarrow> 'w data_t \<Rightarrow> 'w data_t HistNode \<times> 'w data_t Frame list" where
  "hist_lookup_from Null fs v = (Null, fs)"
| "hist_lookup_from (Node key cnt cs l r) fs v =
     (if \<not> key \<noteq> v then (Node key cnt cs l r, fs)
      else if v < key then hist_lookup_from l (LeftOf key cnt cs r # fs) v
      else hist_lookup_from r (RightOf key cnt cs l # fs) v)"

definition hist_lookup :: "'w::len data_t Hist \<Rightarrow> 'w data_t \<Rightarrow> 'w data_t HistNode \<times> 'w data_t Frame list" where
  "hist_lookup H v = hist_lookup_from (root H) [] v"

text \<open>\<^verbatim>\<open>hist_minimum\<close>: the leftmost node below \<open>n\<close>, with its ancestors.\<close>

fun hist_minimum :: "'w data_t HistNode \<Rightarrow> 'w data_t Frame list \<Rightarrow> error + 'w data_t HistNode \<times> 'w data_t Frame list" where
  "hist_minimum Null fs = Inl null_read"
| "hist_minimum (Node key cnt cs Null r) fs = Inr (Node key cnt cs Null r, fs)"
| "hist_minimum (Node key cnt cs l r) fs = hist_minimum l (LeftOf key cnt cs r # fs)"

definition hist_get :: "'w::len data_t Hist \<Rightarrow> 'w data_t \<Rightarrow> int" where
  "hist_get H k = (case fst (hist_lookup H k) of Null \<Rightarrow> 0 | Node key cnt cs l r \<Rightarrow> cnt)"

text \<open>\<^verbatim>\<open>update_from = (n->parent != NULL ? n->parent : child)\<close> after
  \<^verbatim>\<open>hist_transplant(H, n, child)\<close>, which puts \<open>child\<close> where \<open>n\<close> was: the walk starts at
  the parent holding \<open>child\<close>, or at \<open>child\<close> when \<open>n\<close> was the root.\<close>

fun parent_or_child :: "'w data_t HistNode \<Rightarrow> 'w data_t Frame list \<Rightarrow> 'w data_t HistNode \<times> 'w data_t Frame list" where
  "parent_or_child child [] = (child, [])"
| "parent_or_child child (f # fs) = (plug f child, fs)"

text \<open>
  \<^verbatim>\<open>hist_delete\<close>. \<^verbatim>\<open>hist_transplant(T, u, v)\<close> stores \<open>v\<close> in the field that pointed to \<open>u\<close>
  (\<^verbatim>\<open>T->root\<close>, or \<^verbatim>\<open>left\<close> or \<^verbatim>\<open>right\<close> of the parent of \<open>u\<close>) and sets \<^verbatim>\<open>v->parent\<close>: on a
  node with its ancestors, \<open>v\<close> gets the ancestors of \<open>u\<close>. No field \<^verbatim>\<open>counts\<close> changes
  before the walk. The three ways of unlinking a node \<open>n\<close> whose count reached zero:
  \<^item> no left child: \<^verbatim>\<open>hist_transplant(H, n, n->right)\<close>;
  \<^item> no right child: \<^verbatim>\<open>hist_transplant(H, n, n->left)\<close>;
  \<^item> two children, \<open>m\<close> the minimum of the right subtree. When \<open>m\<close> is the right child
    (\<^verbatim>\<open>min_of_right->parent == n\<close>), \<^verbatim>\<open>hist_transplant(H, n, m)\<close> and
    \<^verbatim>\<open>m->left = n->left\<close>: \<open>m\<close> takes the place of \<open>n\<close> and its left subtree, and the
    walk starts at \<open>m\<close>. Otherwise \<^verbatim>\<open>hist_transplant(H, m, m->right)\<close> and
    \<^verbatim>\<open>m->right = n->right\<close> come first: the right child of \<open>m\<close> takes the place of \<open>m\<close>,
    \<open>m\<close> takes the place of \<open>n\<close> with both its subtrees, and the walk starts at the former
    parent of \<open>m\<close>: its ancestors are those inside the right subtree, then \<open>m\<close> with its
    \<^verbatim>\<open>counts\<close> not yet recomputed, then the ancestors of \<open>n\<close>.
\<close>

text \<open>The \<^verbatim>\<open>else\<close> branch of \<^verbatim>\<open>hist_delete\<close>: the node with children \<open>l\<close> and \<open>r\<close> and
  ancestors \<open>fs\<close> is unlinked and freed, and the counts are repaired from \<^verbatim>\<open>update_from\<close>.
  The result is the new tree.\<close>

definition hist_unlink ::
  "'w data_t HistNode \<Rightarrow> 'w data_t HistNode \<Rightarrow> 'w data_t Frame list \<Rightarrow> error + 'w data_t HistNode" where
  "hist_unlink l r fs =
     (if l = Null then
        (case parent_or_child r fs of (u, us) \<Rightarrow> Inr (update_counts_to_root u us))
      else if r = Null then
        (case parent_or_child l fs of (u, us) \<Rightarrow> Inr (update_counts_to_root u us))
      else
        (case hist_minimum r [] of
           Inl e \<Rightarrow> Inl e
         | Inr (Null, ms) \<Rightarrow> Inl null_read
         | Inr (Node mk mc mcs ml mr, []) \<Rightarrow>
             Inr (update_counts_to_root (Node mk mc mcs l mr) fs)
         | Inr (Node mk mc mcs ml mr, p # ps) \<Rightarrow>
             Inr (update_counts_to_root (plug p mr) (ps @ RightOf mk mc mcs l # fs))))"

definition hist_delete :: "'w::len data_t Hist \<Rightarrow> 'w data_t \<Rightarrow> int \<Rightarrow> error + 'w data_t Hist" where
  "hist_delete H v c =
     (case hist_lookup H v of (n, fs) \<Rightarrow>
        if \<not> NDEBUG \<and> \<not> c \<ge> 0 then Inl Assert_c_nonneg
        else (case n of
          Null \<Rightarrow> Inr H
        | Node key cnt cs l r \<Rightarrow>
            (let cnt' = cnt - c in
             if \<not> NDEBUG \<and> \<not> cnt' \<ge> 0 then Inl Assert_count_nonneg
             else if cnt' > 0 then
               Inr (H \<lparr> root := update_counts_to_root (Node key cnt' cs l r) fs \<rparr>)
             else
               (case hist_unlink l r fs of
                  Inl e \<Rightarrow> Inl e
                | Inr t \<Rightarrow> Inr (H \<lparr> root := t \<rparr>)))))"

definition hist_is_empty :: "'w data_t Hist \<Rightarrow> bool" where
  "hist_is_empty H = (root H = Null \<or> counts_or_0 (root H) = 0)"

text \<open>\<^verbatim>\<open>hist_add_rec\<close> and \<^verbatim>\<open>hist_sub_rec\<close>: the node itself, then its left subtree, then
  its right subtree.\<close>

fun hist_add_rec :: "'w::len data_t Hist \<Rightarrow> 'w data_t HistNode \<Rightarrow> error + 'w data_t Hist" where
  "hist_add_rec H Null = Inr H"
| "hist_add_rec H (Node key cnt cs l r) =
     (case hist_insert H key cnt of
        Inl e \<Rightarrow> Inl e
      | Inr H1 \<Rightarrow> (case hist_add_rec H1 l of
          Inl e \<Rightarrow> Inl e
        | Inr H2 \<Rightarrow> hist_add_rec H2 r))"

definition hist_add :: "'w::len data_t Hist \<Rightarrow> 'w data_t Hist \<Rightarrow> error + 'w data_t Hist" where
  "hist_add H1 H2 = hist_add_rec H1 (root H2)"

fun hist_sub_rec :: "'w::len data_t Hist \<Rightarrow> 'w data_t HistNode \<Rightarrow> error + 'w data_t Hist" where
  "hist_sub_rec H Null = Inr H"
| "hist_sub_rec H (Node key cnt cs l r) =
     (case hist_delete H key cnt of
        Inl e \<Rightarrow> Inl e
      | Inr H1 \<Rightarrow> (case hist_sub_rec H1 l of
          Inl e \<Rightarrow> Inl e
        | Inr H2 \<Rightarrow> hist_sub_rec H2 r))"

definition hist_sub :: "'w::len data_t Hist \<Rightarrow> 'w data_t Hist \<Rightarrow> error + 'w data_t Hist" where
  "hist_sub H1 H2 = hist_sub_rec H1 (root H2)"

text \<open>C's \<^verbatim>\<open>/\<close> on \<^verbatim>\<open>int\<close> truncates towards zero.\<close>

definition c_div :: "int \<Rightarrow> int \<Rightarrow> int" where
  "c_div a b = sgn a * sgn b * (\<bar>a\<bar> div \<bar>b\<bar>)"

text \<open>The loop of \<^verbatim>\<open>hist_median\<close>, from node \<open>n\<close> with the current \<open>target\<close>.\<close>

fun hist_median_loop :: "'w data_t HistNode \<Rightarrow> int \<Rightarrow> error + 'w data_t" where
  "hist_median_loop Null target = Inl null_read"
| "hist_median_loop (Node key cnt cs l r) target =
     (if \<not> NDEBUG \<and> \<not> cs \<ge> target then Inl Assert_counts_ge_target
      else (let counts_left = counts_or_0 l in
        if counts_left > target then hist_median_loop l target
        else if target < counts_left + cnt then Inr key
        else hist_median_loop r (target - counts_left - cnt)))"

definition hist_median :: "'w data_t Hist \<Rightarrow> error + 'w data_t" where
  "hist_median H =
     (case root H of
        Null \<Rightarrow> Inl null_read
      | Node key cnt cs l r \<Rightarrow> hist_median_loop (root H) (c_div cs 2))"


section \<open>The row filter of omp-median-filter-2D-sparse.c\<close>

text \<open>
  The buffers \<^verbatim>\<open>in\<close> and \<^verbatim>\<open>out\<close> are lists; an access outside a buffer is undefined
  behaviour in C and the error \<open>Out_of_bounds\<close> here. \<^verbatim>\<open>IDX\<close> is the version compiled under
  \<^verbatim>\<open>#define REPLICATE\<close>.
\<close>

definition IDX :: "int \<Rightarrow> int \<Rightarrow> int \<Rightarrow> int \<Rightarrow> int" where
  "IDX i j height width =
     (let i' = (if i < 0 then 0 else (if i \<ge> height then height - 1 else i));
          j' = (if j < 0 then 0 else (if j \<ge> width then width - 1 else j))
      in i' * width + j')"

definition buf_read :: "'a list \<Rightarrow> int \<Rightarrow> error + 'a" where
  "buf_read buf idx =
     (if 0 \<le> idx \<and> idx < int (length buf) then Inr (buf ! nat idx) else Inl Out_of_bounds)"

definition buf_write :: "'a list \<Rightarrow> int \<Rightarrow> 'a \<Rightarrow> error + 'a list" where
  "buf_write buf idx v =
     (if 0 \<le> idx \<and> idx < int (length buf) then Inr (buf[nat idx := v]) else Inl Out_of_bounds)"

text \<open>A \<^verbatim>\<open>for\<close> loop over the values \<open>xs\<close> of its counter, in order; the first error ends
  the program.\<close>

fun for_each :: "'i list \<Rightarrow> ('i \<Rightarrow> 's \<Rightarrow> error + 's) \<Rightarrow> 's \<Rightarrow> error + 's" where
  "for_each [] body s = Inr s"
| "for_each (x # xs) body s =
     (case body x s of Inl e \<Rightarrow> Inl e | Inr s' \<Rightarrow> for_each xs body s')"

definition fill_histogram ::
  "'w::len data_t Hist \<Rightarrow> 'w data_t list \<Rightarrow> int \<Rightarrow> int \<Rightarrow> int \<Rightarrow> int \<Rightarrow> int \<Rightarrow> error + 'w data_t Hist" where
  "fill_histogram hist inp i j radius width height =
     for_each [- radius .. radius] (\<lambda>di.
       for_each [- radius .. radius] (\<lambda>dj h.
         case buf_read inp (IDX (i + di) (j + dj) height width) of
           Inl e \<Rightarrow> Inl e
         | Inr val \<Rightarrow> hist_insert h val 1)) hist"

definition shift_histogram ::
  "'w::len data_t Hist \<Rightarrow> 'w data_t list \<Rightarrow> int \<Rightarrow> int \<Rightarrow> int \<Rightarrow> int \<Rightarrow> int \<Rightarrow> error + 'w data_t Hist" where
  "shift_histogram hist inp i j radius width height =
     for_each [- radius .. radius] (\<lambda>di h.
       case buf_read inp (IDX (i + di) (j - radius) height width) of
         Inl e \<Rightarrow> Inl e
       | Inr val_left \<Rightarrow>
           (case hist_delete h val_left 1 of
              Inl e \<Rightarrow> Inl e
            | Inr h1 \<Rightarrow>
                (case buf_read inp (IDX (i + di) (j + radius + 1) height width) of
                   Inl e \<Rightarrow> Inl e
                 | Inr val_right \<Rightarrow> hist_insert h1 val_right 1))) hist"

text \<open>One step of the column loop: \<^verbatim>\<open>out[IDX(i, j, height, width)] = hist_median(hist);\<close>\<close>

definition emit_median ::
  "'w data_t Hist \<Rightarrow> 'w data_t list \<Rightarrow> int \<Rightarrow> int \<Rightarrow> int \<Rightarrow> int \<Rightarrow> error + 'w data_t list" where
  "emit_median hist out i j width height =
     (case hist_median hist of
        Inl e \<Rightarrow> Inl e
      | Inr m \<Rightarrow> buf_write out (IDX i j height width) m)"

text \<open>The body of the loop over the rows, for row \<open>i\<close>: the state is the thread's histogram
  and the output buffer. After \<^verbatim>\<open>for (j=0; j<width-1; j++)\<close> the counter is \<open>width - 1\<close>,
  or \<open>0\<close> when the loop did not run.\<close>

definition filter_row ::
  "'w::len data_t list \<Rightarrow> int \<Rightarrow> int \<Rightarrow> int \<Rightarrow> int \<Rightarrow>
   'w data_t Hist \<times> 'w data_t list \<Rightarrow> error + 'w data_t Hist \<times> 'w data_t list" where
  "filter_row inp radius width height i st =
     (case st of (hist, out) \<Rightarrow>
        (case fill_histogram (hist_clear hist) inp i 0 radius width height of
           Inl e \<Rightarrow> Inl e
         | Inr h0 \<Rightarrow>
             (case for_each [0 .. width - 2] (\<lambda>j (h, ou).
                     case emit_median h ou i j width height of
                       Inl e \<Rightarrow> Inl e
                     | Inr ou' \<Rightarrow>
                         (case shift_histogram h inp i j radius width height of
                            Inl e \<Rightarrow> Inl e
                          | Inr h' \<Rightarrow> Inr (h', ou'))) (h0, out) of
                Inl e \<Rightarrow> Inl e
              | Inr (h1, out1) \<Rightarrow>
                  (case emit_median h1 out1 i (if 0 < width - 1 then width - 1 else 0) width height of
                     Inl e \<Rightarrow> Inl e
                   | Inr out2 \<Rightarrow> Inr (h1, out2)))))"

text \<open>One thread of the parallel region: its own histogram, created before and destroyed
  after the rows it is given, which it filters in the order \<open>rows\<close>.\<close>

definition worker ::
  "'w::len data_t list \<Rightarrow> int \<Rightarrow> int \<Rightarrow> int \<Rightarrow> int list \<Rightarrow> 'w data_t list \<Rightarrow> error + 'w data_t list" where
  "worker inp radius width height rows out =
     (case for_each rows (filter_row inp radius width height) (hist_create, out) of
        Inl e \<Rightarrow> Inl e
      | Inr (hist, out') \<Rightarrow> Inr out')"

definition DX :: int where "DX = 0"
definition DY :: int where "DY = 1"

text \<open>
  \<^verbatim>\<open>median_filter_2D_sparse_byrow\<close>. The parameter \<open>schedule\<close> is not in the C signature: it
  is the choice OpenMP makes at \<^verbatim>\<open>#pragma omp for\<close>, one list of rows for each thread of the
  team. The threads share \<^verbatim>\<open>in\<close> (read only) and \<^verbatim>\<open>out\<close>, and a thread has no other state
  than its histogram, so the model runs them one after the other; the interleaving of
  their steps is not modelled.
\<close>

definition median_filter_2D_sparse_byrow ::
  "int list list \<Rightarrow> 'w::len data_t list \<Rightarrow> 'w data_t list \<Rightarrow> int list \<Rightarrow> int \<Rightarrow> int \<Rightarrow>
   error + 'w data_t list" where
  "median_filter_2D_sparse_byrow schedule inp out dims ndims radius =
     (if \<not> NDEBUG \<and> \<not> ndims = 2 then Inl Assert_ndims
      else (case buf_read dims DX of
        Inl e \<Rightarrow> Inl e
      | Inr width \<Rightarrow> (case buf_read dims DY of
          Inl e \<Rightarrow> Inl e
        | Inr height \<Rightarrow> for_each schedule (worker inp radius width height) out)))"

text \<open>A schedule of \<^verbatim>\<open>omp for\<close> runs every iteration \<open>0 \<le> i < height\<close> once.\<close>

definition valid_schedule :: "int \<Rightarrow> int list list \<Rightarrow> bool" where
  "valid_schedule height schedule = (mset (concat schedule) = mset [0 .. height - 1])"

section \<open>Notions of the specification\<close>

text \<open>The pairs (key, count) of a tree, from left to right.\<close>

fun entries :: "'w data_t HistNode \<Rightarrow> ('w data_t \<times> int) list" where
  "entries Null = []"
| "entries (Node key cnt cs l r) = entries l @ (key, cnt) # entries r"

text \<open>Every node has \<open>subtreeCount = count + subtreeCount(left) + subtreeCount(right)\<close>, a
  missing child counting for 0.\<close>

fun counts_consistent :: "'w data_t HistNode \<Rightarrow> bool" where
  "counts_consistent Null = True"
| "counts_consistent (Node key cnt cs l r) =
     (cs = cnt + counts_or_0 l + counts_or_0 r \<and> counts_consistent l \<and> counts_consistent r)"



text \<open>The keys increase strictly from left to right, and every count is positive: the data
  model of the specification, which the proofs carry from one operation to the next.\<close>

definition keys_sorted :: "'w::len data_t HistNode \<Rightarrow> bool" where
  "keys_sorted t = sorted_wrt (<) (map fst (entries t))"

definition counts_positive :: "'w data_t HistNode \<Rightarrow> bool" where
  "counts_positive t = list_all (\<lambda>p. 0 < snd p) (entries t)"

definition hist_inv :: "'w::len data_t Hist \<Rightarrow> bool" where
  "hist_inv H = (counts_consistent (root H) \<and> keys_sorted (root H) \<and> counts_positive (root H))"

text \<open>The calls a client makes on one histogram, and their effect from a given state.\<close>

datatype 'k hist_op = Insert 'k int | Delete 'k int

fun apply_op :: "'w::len data_t Hist \<Rightarrow> 'w data_t hist_op \<Rightarrow> error + 'w data_t Hist" where
  "apply_op H (Insert k c) = hist_insert H k c"
| "apply_op H (Delete k c) = hist_delete H k c"

fun apply_ops :: "'w::len data_t Hist \<Rightarrow> 'w data_t hist_op list \<Rightarrow> error + 'w data_t Hist" where
  "apply_ops H [] = Inr H"
| "apply_ops H (x # xs) = (case apply_op H x of Inl e \<Rightarrow> Inl e | Inr H' \<Rightarrow> apply_ops H' xs)"

text \<open>The inserted minus the deleted multiplicities of key \<open>k\<close> in a sequence of calls.\<close>

fun signed_amount :: "'k hist_op \<Rightarrow> 'k \<Rightarrow> int" where
  "signed_amount (Insert k' c) k = (if k' = k then c else 0)"
| "signed_amount (Delete k' c) k = (if k' = k then - c else 0)"

definition net_count :: "'k hist_op list \<Rightarrow> 'k \<Rightarrow> int" where
  "net_count ops k = sum_list (map (\<lambda>x. signed_amount x k) ops)"

text \<open>The preconditions of the calls \<open>todo\<close>, made after the calls \<open>past\<close>: no negative
  multiplicity, and a delete of \<open>c\<close> occurrences finds at least \<open>c\<close>.\<close>

fun preconditions_hold :: "'k hist_op list \<Rightarrow> 'k hist_op list \<Rightarrow> bool" where
  "preconditions_hold past [] = True"
| "preconditions_hold past (Insert k c # todo) =
     (0 \<le> c \<and> preconditions_hold (past @ [Insert k c]) todo)"
| "preconditions_hold past (Delete k c # todo) =
     (0 \<le> c \<and> c \<le> net_count past k \<and> preconditions_hold (past @ [Delete k c]) todo)"

text \<open>The values of a C \<^verbatim>\<open>int\<close> (32 bits with \<^verbatim>\<open>gcc\<close> on the platform of the
  \<^verbatim>\<open>README\<close>).\<close>

definition INT_MAX :: int where
  "INT_MAX = 2147483647"

definition INT_MIN :: int where
  "INT_MIN = - 2147483648"

definition is_c_int :: "int \<Rightarrow> bool" where
  "is_c_int x = (INT_MIN \<le> x \<and> x \<le> INT_MAX)"

text \<open>The occurrences of all keys together after a sequence of calls: what
  \<^verbatim>\<open>H->root->counts\<close> has to hold.\<close>

fun multiplicity :: "'k hist_op \<Rightarrow> int" where
  "multiplicity (Insert k c) = c"
| "multiplicity (Delete k c) = c"

fun signed_multiplicity :: "'k hist_op \<Rightarrow> int" where
  "signed_multiplicity (Insert k c) = c"
| "signed_multiplicity (Delete k c) = - c"

definition net_total :: "'k hist_op list \<Rightarrow> int" where
  "net_total ops = sum_list (map signed_multiplicity ops)"

text \<open>The calls \<open>todo\<close>, made after the calls \<open>past\<close>, stay in the range of \<^verbatim>\<open>int\<close>: every
  multiplicity passed is an \<^verbatim>\<open>int\<close>, and so is the total number of occurrences after every
  call.\<close>

fun totals_fit_int :: "'k hist_op list \<Rightarrow> 'k hist_op list \<Rightarrow> bool" where
  "totals_fit_int past [] = True"
| "totals_fit_int past (x # todo) =
     (is_c_int (multiplicity x) \<and> is_c_int (net_total (past @ [x])) \<and>
      totals_fit_int (past @ [x]) todo)"

text \<open>Every stored occurrence, each key repeated \<open>count\<close> times; sorted, this is the
  sequence the median is read from.\<close>

definition expand :: "('k \<times> int) list \<Rightarrow> 'k list" where
  "expand es = concat (map (\<lambda>p. replicate (nat (snd p)) (fst p)) es)"


text \<open>The median of a sequence of samples: position \<open>length div 2\<close> of the sorted sequence,
  the upper of the two middle values when the length is even.\<close>

definition median_of :: "'w::len data_t list \<Rightarrow> 'w data_t" where
  "median_of xs = sort xs ! (length xs div 2)"

text \<open>Border replication: the nearest index in \<open>0 .. n - 1\<close>.\<close>

definition clamp :: "int \<Rightarrow> int \<Rightarrow> int" where
  "clamp n x = (if x < 0 then 0 else if n \<le> x then n - 1 else x)"

text \<open>The samples of the window of side \<open>2 * radius + 1\<close> centred at row \<open>i\<close>, column \<open>j\<close>.\<close>

definition window :: "'a list \<Rightarrow> int \<Rightarrow> int \<Rightarrow> int \<Rightarrow> int \<Rightarrow> int \<Rightarrow> 'a list" where
  "window inp i j radius width height =
     concat (map (\<lambda>di. map (\<lambda>dj. inp ! nat (clamp height (i + di) * width + clamp width (j + dj)))
                         [- radius .. radius]) [- radius .. radius])"

text \<open>
  The sizes for which the arithmetic of the filter stays in the range of \<^verbatim>\<open>int\<close>: the number
  of samples of a window, which \<^verbatim>\<open>counts\<close> of the root holds; the number of pixels, which
  bounds \<^verbatim>\<open>IDX\<close>; the coordinates \<^verbatim>\<open>i+di\<close>, \<^verbatim>\<open>j+dj\<close> and \<^verbatim>\<open>j+radius+1\<close>.
\<close>

definition sizes_fit_int :: "int \<Rightarrow> int \<Rightarrow> int \<Rightarrow> bool" where
  "sizes_fit_int radius width height =
     ((2 * radius + 1) * (2 * radius + 1) \<le> INT_MAX \<and> width * height \<le> INT_MAX \<and>
      height + radius \<le> INT_MAX \<and> width + radius \<le> INT_MAX)"

text \<open>The median of the window at column \<open>j\<close>, from a histogram built from scratch.\<close>

definition fresh_median :: "'w::len data_t list \<Rightarrow> int \<Rightarrow> int \<Rightarrow> int \<Rightarrow> int \<Rightarrow> int \<Rightarrow> error + 'w data_t" where
  "fresh_median inp i j radius width height =
     (case fill_histogram hist_create inp i j radius width height of
        Inl e \<Rightarrow> Inl e
      | Inr h \<Rightarrow> hist_median h)"

subsection \<open>Auxiliary notions of the proofs\<close>

definition subtree_total :: "'w data_t HistNode \<Rightarrow> int" where
  "subtree_total t = sum_list (map snd (entries t))"

text \<open>The entries to the left and to the right of a node with ancestors \<open>fs\<close>.\<close>

fun ctx_before :: "'w data_t Frame list \<Rightarrow> ('w data_t \<times> int) list" where
  "ctx_before [] = []"
| "ctx_before (LeftOf k c cs r # fs) = ctx_before fs"
| "ctx_before (RightOf k c cs l # fs) = ctx_before fs @ entries l @ [(k, c)]"

fun ctx_after :: "'w data_t Frame list \<Rightarrow> ('w data_t \<times> int) list" where
  "ctx_after [] = []"
| "ctx_after (LeftOf k c cs r # fs) = (k, c) # entries r @ ctx_after fs"
| "ctx_after (RightOf k c cs l # fs) = ctx_after fs"

fun frame_counts :: "'w data_t Frame \<Rightarrow> int" where
  "frame_counts (LeftOf k c cs r) = cs"
| "frame_counts (RightOf k c cs l) = cs"

fun frame_count :: "'w data_t Frame \<Rightarrow> int" where
  "frame_count (LeftOf k c cs r) = c"
| "frame_count (RightOf k c cs l) = c"

fun frame_sibling :: "'w data_t Frame \<Rightarrow> 'w data_t HistNode" where
  "frame_sibling (LeftOf k c cs r) = r"
| "frame_sibling (RightOf k c cs l) = l"

text \<open>The ancestors \<open>fs\<close> have the right counts when the node below them has counts \<open>e\<close>.\<close>

fun frames_ok :: "int \<Rightarrow> 'w data_t Frame list \<Rightarrow> bool" where
  "frames_ok e [] = True"
| "frames_ok e (f # fs) =
     (counts_consistent (frame_sibling f) \<and>
      frame_counts f = frame_count f + e + counts_or_0 (frame_sibling f) \<and>
      frames_ok (frame_counts f) fs)"

text \<open>The same, but the nearest ancestor may disagree with the node below it.\<close>

fun frames_above_ok :: "'w data_t Frame list \<Rightarrow> bool" where
  "frames_above_ok [] = True"
| "frames_above_ok (f # fs) =
     (counts_consistent (frame_sibling f) \<and> frames_ok (frame_counts f) fs)"

fun children_ok :: "'w data_t HistNode \<Rightarrow> bool" where
  "children_ok Null = True"
| "children_ok (Node k c cs l r) = (counts_consistent l \<and> counts_consistent r)"

text \<open>The occurrences of key \<open>k\<close> in a list of entries.\<close>

definition amount :: "('k \<times> int) list \<Rightarrow> 'k \<Rightarrow> int" where
  "amount es k = sum_list (map snd (filter (\<lambda>p. fst p = k) es))"

text \<open>The multiset of samples a histogram stands for.\<close>

definition hist_mset :: "'w data_t Hist \<Rightarrow> 'w data_t multiset" where
  "hist_mset H = mset (expand (entries (root H)))"

text \<open>What the filter is to write at position \<open>p\<close> of the output buffer.\<close>

definition expected :: "'w::len data_t list \<Rightarrow> int \<Rightarrow> int \<Rightarrow> int \<Rightarrow> int \<Rightarrow> 'w data_t" where
  "expected inp radius width height p =
     median_of (window inp (p div width) (p mod width) radius width height)"

section \<open>Lemmas on the histogram\<close>

subsection \<open>The build\<close>

lemma NDEBUG_build [simp]: "NDEBUG"
  by (simp add: NDEBUG_def)

lemma null_read_build [simp]: "null_read = Null_dereference"
  by (simp add: null_read_def)

subsection \<open>Recomputing the counts towards the root\<close>

lemma entries_plug: "entries (plug f n) = ctx_before [f] @ entries n @ ctx_after [f]"
  by (cases f) auto

lemma entries_rebuild: "entries (rebuild n fs) = ctx_before fs @ entries n @ ctx_after fs"
proof (induction fs arbitrary: n)
  case Nil show ?case by simp
next
  case (Cons f fs) then show ?case by (cases f) auto
qed

lemma entries_update_counts [simp]: "entries (snd (update_counts n)) = entries n"
  by (cases n) (auto simp: Let_def)

lemma counts_update_counts: "counts_or_0 (snd (update_counts n)) =
   (case n of Null \<Rightarrow> 0 | Node k c cs l r \<Rightarrow> c + counts_or_0 l + counts_or_0 r)"
  by (cases n) (auto simp: Let_def)

lemma fst_update_counts: "fst (update_counts n) =
   (case n of Null \<Rightarrow> False | Node k c cs l r \<Rightarrow> cs \<noteq> c + counts_or_0 l + counts_or_0 r)"
  by (cases n) (auto simp: Let_def)

lemma consistent_update_counts: "children_ok n \<Longrightarrow> counts_consistent (snd (update_counts n))"
  by (cases n) (auto simp: Let_def)

lemma entries_update_counts_to_root:
  "entries (update_counts_to_root n fs) = entries (rebuild n fs)"
proof (induction fs arbitrary: n)
  case Nil show ?case by simp
next
  case (Cons f fs)
  show ?case
  proof (cases "fst (update_counts n)")
    case True
    then have "entries (update_counts_to_root n (f # fs))
        = entries (rebuild (plug f (snd (update_counts n))) fs)"
      using Cons.IH by simp
    then show ?thesis by (simp add: entries_rebuild entries_plug)
  next
    case False
    then show ?thesis by (simp add: entries_rebuild entries_plug)
  qed
qed

lemma consistent_plug:
  "counts_consistent n \<Longrightarrow> counts_consistent (frame_sibling f) \<Longrightarrow>
   frame_counts f = frame_count f + counts_or_0 n + counts_or_0 (frame_sibling f) \<Longrightarrow>
   counts_consistent (plug f n)"
  by (cases f) auto

lemma counts_plug [simp]: "counts_or_0 (plug f n) = frame_counts f"
  by (cases f) auto

lemma frames_ok_ConsD:
  assumes "frames_ok e (f # fs)"
  shows "counts_consistent (frame_sibling f)"
    and "frame_counts f = frame_count f + e + counts_or_0 (frame_sibling f)"
    and "frames_ok (frame_counts f) fs"
  using assms unfolding frames_ok.simps by blast+

lemma consistent_rebuild:
  "counts_consistent n \<Longrightarrow> frames_ok (counts_or_0 n) fs \<Longrightarrow> counts_consistent (rebuild n fs)"
proof (induction fs arbitrary: n)
  case Nil then show ?case by simp
next
  case (Cons f fs)
  from Cons.prems(2) have a: "counts_consistent (frame_sibling f)"
    and b: "frame_counts f = frame_count f + counts_or_0 n + counts_or_0 (frame_sibling f)"
    and c: "frames_ok (frame_counts f) fs" by (rule frames_ok_ConsD)+
  have "counts_consistent (plug f n)" using Cons.prems(1) a b by (rule consistent_plug)
  moreover have "frames_ok (counts_or_0 (plug f n)) fs" using c by (simp only: counts_plug)
  ultimately have "counts_consistent (rebuild (plug f n) fs)" by (rule Cons.IH)
  then show ?case by simp
qed

lemma frames_ok_above: "frames_ok e fs \<Longrightarrow> frames_above_ok fs"
  by (cases fs) auto

lemma children_ok_plug: "counts_consistent n \<Longrightarrow> counts_consistent (frame_sibling f) \<Longrightarrow> children_ok (plug f n)"
  by (cases f) auto

lemma walk_consistent:
  "children_ok n \<Longrightarrow> frames_above_ok fs \<Longrightarrow>
   (\<not> fst (update_counts n) \<Longrightarrow> frames_ok (counts_or_0 n) fs) \<Longrightarrow>
   counts_consistent (update_counts_to_root n fs)"
proof (induction fs arbitrary: n)
  case Nil then show ?case by (simp add: consistent_update_counts)
next
  case (Cons f fs)
  let ?n' = "snd (update_counts n)"
  have n': "counts_consistent ?n'" using Cons.prems(1) by (rule consistent_update_counts)
  show ?case
  proof (cases "fst (update_counts n)")
    case True
    have "children_ok (plug f ?n')" using n' Cons.prems(2) by (auto intro: children_ok_plug)
    moreover have "frames_above_ok fs" using Cons.prems(2) by (auto dest: frames_ok_above)
    moreover have "frames_ok (counts_or_0 (plug f ?n')) fs" using Cons.prems(2) by simp
    ultimately have "counts_consistent (update_counts_to_root (plug f ?n') fs)"
      using Cons.IH by blast
    then show ?thesis using True by simp
  next
    case False
    then have ok: "frames_ok (counts_or_0 n) (f # fs)" using Cons.prems(3) by blast
    have "counts_or_0 ?n' = counts_or_0 n" using False by (cases n) (auto simp: Let_def)
    with ok have "frames_ok (counts_or_0 ?n') (f # fs)" by (simp only:)
    with n' have "counts_consistent (rebuild ?n' (f # fs))" by (rule consistent_rebuild)
    then show ?thesis using False by (simp only: update_counts_to_root.simps if_False)
  qed
qed

lemma amount_Nil [simp]: "amount [] k = 0"
  by (simp add: amount_def)

lemma amount_Cons [simp]: "amount ((a, b) # es) k = (if a = k then b else 0) + amount es k"
  by (simp add: amount_def)

lemma amount_append [simp]: "amount (xs @ ys) k = amount xs k + amount ys k"
  by (simp add: amount_def)

lemma amount_absent: "k \<notin> fst ` set es \<Longrightarrow> amount es k = 0"
  by (induction es) auto

lemma total_simps [simp]:
  "subtree_total Null = 0"
  "subtree_total (Node key cnt cs l r) = subtree_total l + cnt + subtree_total r"
  by (simp_all add: subtree_total_def)

lemma consistent_counts_total: "counts_consistent t \<Longrightarrow> counts_or_0 t = subtree_total t"
  by (induction t) auto

lemma consistent_children_ok: "counts_consistent t \<Longrightarrow> children_ok t"
  by (cases t) auto

subsection \<open>Insertion\<close>

lemma counts_insert_rec:
  "counts_consistent t \<Longrightarrow> counts_consistent (hist_insert_rec t k c)"
  by (induction t) (auto simp: Let_def hist_new_node_def)

lemma keys_insert_rec:
  "fst ` set (entries (hist_insert_rec t k c)) = insert k (fst ` set (entries t))"
  by (induction t) (auto simp: Let_def hist_new_node_def)

lemma sorted_insert_rec:
  "keys_sorted t \<Longrightarrow> keys_sorted (hist_insert_rec t k c)"
proof (induction t)
  case Null
  then show ?case by (simp add: keys_sorted_def hist_new_node_def Let_def)
next
  case (Node key cnt cs l r)
  from Node.prems have sl: "keys_sorted l" and sr: "keys_sorted r"
    and lo: "\<forall>x \<in> fst ` set (entries l). x < key"
    and hi: "\<forall>x \<in> fst ` set (entries r). key < x"
    and lr: "\<forall>x \<in> fst ` set (entries l). \<forall>y \<in> fst ` set (entries r). x < y"
    by (auto simp: keys_sorted_def sorted_wrt_append)
  consider (lt) "k < key" | (gt) "key < k" | (eq) "k = key" by (metis linorder_less_linear)
  then show ?case
  proof cases
    case lt
    have s: "keys_sorted (hist_insert_rec l k c)" using sl by (rule Node.IH(1))
    have "\<forall>x \<in> fst ` set (entries (hist_insert_rec l k c)). x < key"
      using lo lt by (simp add: keys_insert_rec)
    moreover have "\<forall>x \<in> fst ` set (entries (hist_insert_rec l k c)). \<forall>y \<in> fst ` set (entries r). x < y"
      using lr hi lt by (auto simp: keys_insert_rec)
    ultimately show ?thesis using s sr hi lt
      by (auto simp: keys_sorted_def sorted_wrt_append Let_def)
  next
    case gt
    have s: "keys_sorted (hist_insert_rec r k c)" using sr by (rule Node.IH(2))
    have "\<forall>x \<in> fst ` set (entries (hist_insert_rec r k c)). key < x"
      using hi gt by (simp add: keys_insert_rec)
    moreover have "\<forall>x \<in> fst ` set (entries l). \<forall>y \<in> fst ` set (entries (hist_insert_rec r k c)). x < y"
      using lr lo gt by (auto simp: keys_insert_rec)
    ultimately show ?thesis using s sl lo gt
      by (auto simp: keys_sorted_def sorted_wrt_append Let_def)
  next
    case eq
    then show ?thesis using Node.prems by (simp add: keys_sorted_def Let_def)
  qed
qed

lemma positive_insert_rec:
  "counts_positive t \<Longrightarrow> 0 < c \<Longrightarrow> counts_positive (hist_insert_rec t k c)"
  by (induction t) (auto simp: counts_positive_def Let_def hist_new_node_def)

lemma amount_insert_rec:
  "keys_sorted t \<Longrightarrow>
   amount (entries (hist_insert_rec t k c)) j = amount (entries t) j + (if j = k then c else 0)"
proof (induction t)
  case Null
  then show ?case by (simp add: hist_new_node_def Let_def)
next
  case (Node key cnt cs l r)
  from Node.prems have sl: "keys_sorted l" and sr: "keys_sorted r"
    by (auto simp: keys_sorted_def sorted_wrt_append)
  show ?case using Node.IH(1)[OF sl] Node.IH(2)[OF sr] by (auto simp: Let_def)
qed

subsection \<open>Lookup\<close>

lemma lookup_rebuild:
  "hist_lookup_from t fs v = (n, fs') \<Longrightarrow> rebuild n fs' = rebuild t fs"
  by (induction t fs v rule: hist_lookup_from.induct) (auto split: if_splits)

lemma lookup_found:
  "hist_lookup_from t fs v = (Node key cnt cs l r, fs') \<Longrightarrow> key = v"
  by (induction t fs v rule: hist_lookup_from.induct) (auto split: if_splits)

lemma lookup_frames_ok:
  "hist_lookup_from t fs v = (n, fs') \<Longrightarrow> counts_consistent t \<Longrightarrow>
   frames_ok (counts_or_0 t) fs \<Longrightarrow> counts_consistent n \<and> frames_ok (counts_or_0 n) fs'"
proof (induction t fs v rule: hist_lookup_from.induct)
  case (1 fs v)
  then show ?case by simp
next
  case (2 key cnt cs l r fs v)
  from "2.prems"(2) have cc: "cs = cnt + counts_or_0 l + counts_or_0 r"
    and cl: "counts_consistent l" and cr: "counts_consistent r" by simp_all
  from "2.prems"(3) have fo: "frames_ok cs fs" by simp
  consider (eq) "key = v" | (lt) "key \<noteq> v" "v < key" | (gt) "key \<noteq> v" "\<not> v < key" by blast
  then show ?case
  proof cases
    case eq
    then have "n = Node key cnt cs l r" "fs' = fs" using "2.prems"(1) by simp_all
    then show ?thesis using "2.prems"(2,3) by simp
  next
    case lt
    have "hist_lookup_from l (LeftOf key cnt cs r # fs) v = (n, fs')"
      using "2.prems"(1) lt by simp
    moreover have "frames_ok (counts_or_0 l) (LeftOf key cnt cs r # fs)"
      using cc cr fo by simp
    ultimately show ?thesis using "2.IH"(1) lt cl by blast
  next
    case gt
    have "hist_lookup_from r (RightOf key cnt cs l # fs) v = (n, fs')"
      using "2.prems"(1) gt by simp
    moreover have "frames_ok (counts_or_0 r) (RightOf key cnt cs l # fs)"
      using cc cl fo by simp
    ultimately show ?thesis using "2.IH"(2) gt cr by blast
  qed
qed

lemma lookup_amount:
  "keys_sorted t \<Longrightarrow>
   (case fst (hist_lookup_from t fs v) of Null \<Rightarrow> 0 | Node key cnt cs l r \<Rightarrow> cnt)
     = amount (entries t) v"
proof (induction t fs v rule: hist_lookup_from.induct)
  case (1 fs v)
  then show ?case by simp
next
  case (2 key cnt cs l r fs v)
  from "2.prems" have sl: "keys_sorted l" and sr: "keys_sorted r"
    and lo: "\<forall>x \<in> fst ` set (entries l). x < key"
    and hi: "\<forall>x \<in> fst ` set (entries r). key < x"
    by (auto simp: keys_sorted_def sorted_wrt_append)
  consider (eq) "key = v" | (lt) "v < key" | (gt) "key < v" by (metis linorder_less_linear)
  then show ?case
  proof cases
    case eq
    have "v \<notin> fst ` set (entries l)" using lo eq by auto
    moreover have "v \<notin> fst ` set (entries r)" using hi eq by auto
    ultimately show ?thesis using eq by (simp add: amount_absent)
  next
    case lt
    have "v \<notin> fst ` set (entries r)" using hi lt by (metis order_less_asym)
    then show ?thesis using lt "2.IH"(1) sl by (simp add: amount_absent)
  next
    case gt
    have "v \<notin> fst ` set (entries l)" using lo gt by (metis order_less_asym)
    moreover have "\<not> v < key" "key \<noteq> v" using gt by auto
    ultimately show ?thesis using "2.IH"(2) sr by (simp add: amount_absent)
  qed
qed

lemma amount_nonneg: "list_all (\<lambda>p. 0 \<le> snd p) es \<Longrightarrow> 0 \<le> amount es v"
  by (induction es) auto

lemma amount_pos: "list_all (\<lambda>p. 0 < snd p) es \<Longrightarrow> v \<in> fst ` set es \<Longrightarrow> 0 < amount es v"
proof (induction es)
  case Nil
  then show ?case by simp
next
  case (Cons p es)
  obtain a b where p: "p = (a, b)" by (cases p)
  from Cons.prems(1) have b: "0 < b" and all: "list_all (\<lambda>p. 0 < snd p) es" by (simp_all add: p)
  have "list_all (\<lambda>p. 0 \<le> snd p) es" using all by (simp add: list_all_iff less_imp_le)
  then have nn: "0 \<le> amount es v" by (rule amount_nonneg)
  show ?case
  proof (cases "a = v")
    case True
    then show ?thesis using b nn by (simp add: p)
  next
    case False
    then have "v \<in> fst ` set es" using Cons.prems(2) by (auto simp: p)
    then show ?thesis using Cons.IH all False by (simp add: p)
  qed
qed

lemma lookup_Null_absent:
  assumes "keys_sorted t" and "counts_positive t" and "fst (hist_lookup_from t fs v) = Null"
  shows "v \<notin> fst ` set (entries t)"
proof
  assume "v \<in> fst ` set (entries t)"
  moreover from assms(2) have "list_all (\<lambda>p. 0 < snd p) (entries t)"
    by (simp add: counts_positive_def)
  ultimately have "0 < amount (entries t) v" by (intro amount_pos)
  moreover have "amount (entries t) v = 0"
    using lookup_amount[OF assms(1), of fs v] assms(3) by simp
  ultimately show False by simp
qed

subsection \<open>Deletion\<close>

lemma rebuild_append: "rebuild n (xs @ ys) = rebuild (rebuild n xs) ys"
  by (induction xs arbitrary: n) auto

lemma ctx_before_append: "ctx_before (xs @ ys) = ctx_before ys @ ctx_before xs"
  by (induction xs rule: ctx_before.induct) auto

lemma ctx_after_append: "ctx_after (xs @ ys) = ctx_after xs @ ctx_after ys"
  by (induction xs rule: ctx_after.induct) auto

lemma counts_rebuild:
  "counts_or_0 (rebuild n fs) = (if fs = [] then counts_or_0 n else frame_counts (last fs))"
  by (induction fs arbitrary: n) auto

lemma frames_ok_append:
  "frames_ok e (xs @ ys) =
     (frames_ok e xs \<and> frames_ok (if xs = [] then e else frame_counts (last xs)) ys)"
  by (induction xs arbitrary: e) auto

lemma parent_or_child_rebuild:
  "parent_or_child child fs = (u, us) \<Longrightarrow> rebuild u us = rebuild child fs"
  by (cases fs) auto

lemma transplant_consistent:
  assumes "counts_consistent child" and "frames_above_ok fs"
    and "parent_or_child child fs = (u, us)"
  shows "counts_consistent (update_counts_to_root u us)"
proof (cases fs)
  case Nil
  then have "u = child" "us = []" using assms(3) by simp_all
  then show ?thesis using assms(1) by (simp add: consistent_update_counts consistent_children_ok)
next
  case (Cons f fs')
  then have u: "u = plug f child" and us: "us = fs'" using assms(3) by simp_all
  from assms(2) Cons have sib: "counts_consistent (frame_sibling f)"
    and up: "frames_ok (frame_counts f) fs'" by simp_all
  have "children_ok u" unfolding u using assms(1) sib by (rule children_ok_plug)
  moreover have "frames_above_ok us" unfolding us using up by (rule frames_ok_above)
  moreover have "frames_ok (counts_or_0 u) us" unfolding u us using up by (simp only: counts_plug)
  ultimately show ?thesis by (rule walk_consistent)
qed

lemma minimum_shape:
  "r \<noteq> Null \<Longrightarrow>
   \<exists>mk mc mcs mr ms. hist_minimum r fs0 = Inr (Node mk mc mcs Null mr, ms @ fs0) \<and>
      rebuild (Node mk mc mcs Null mr) ms = r \<and> ctx_before ms = [] \<and>
      (counts_consistent r \<longrightarrow> counts_consistent (Node mk mc mcs Null mr) \<and> frames_ok mcs ms)"
proof (induction r fs0 rule: hist_minimum.induct)
  case (1 fs)
  then show ?case by simp
next
  case (2 key cnt cs r fs)
  have "hist_minimum (Node key cnt cs Null r) fs = Inr (Node key cnt cs Null r, [] @ fs) \<and>
      rebuild (Node key cnt cs Null r) [] = Node key cnt cs Null r \<and> ctx_before [] = [] \<and>
      (counts_consistent (Node key cnt cs Null r) \<longrightarrow>
         counts_consistent (Node key cnt cs Null r) \<and> frames_ok cs [])"
    by simp
  then show ?case by blast
next
  case (3 key cnt cs lk lc lcs ll lr r fs)
  let ?l = "Node lk lc lcs ll lr"
  let ?F = "LeftOf key cnt cs r"
  have "?l \<noteq> Null" by simp
  from "3.IH"[OF this] obtain mk mc mcs mr ms where
    m: "hist_minimum ?l (?F # fs) = Inr (Node mk mc mcs Null mr, ms @ ?F # fs)"
    and rb: "rebuild (Node mk mc mcs Null mr) ms = ?l"
    and cb: "ctx_before ms = []"
    and cc: "counts_consistent ?l \<longrightarrow> counts_consistent (Node mk mc mcs Null mr) \<and> frames_ok mcs ms"
    by blast
  have 1: "hist_minimum (Node key cnt cs ?l r) fs = Inr (Node mk mc mcs Null mr, (ms @ [?F]) @ fs)"
    using m by simp
  have 2: "rebuild (Node mk mc mcs Null mr) (ms @ [?F]) = Node key cnt cs ?l r"
    using rb by (simp add: rebuild_append)
  have 3: "ctx_before (ms @ [?F]) = []" using cb by (simp add: ctx_before_append)
  have 4: "counts_consistent (Node key cnt cs ?l r) \<longrightarrow>
       counts_consistent (Node mk mc mcs Null mr) \<and> frames_ok mcs (ms @ [?F])"
  proof
    assume a: "counts_consistent (Node key cnt cs ?l r)"
    then have l: "counts_consistent ?l" and r: "counts_consistent r"
      and cs: "cs = cnt + lcs + counts_or_0 r" by simp_all
    from cc l have c1: "counts_consistent (Node mk mc mcs Null mr)" and c2: "frames_ok mcs ms"
      by blast+
    have top: "(if ms = [] then mcs else frame_counts (last ms)) = lcs"
      using counts_rebuild[of "Node mk mc mcs Null mr" ms] rb by simp
    have "frames_ok lcs [?F]" using r cs by simp
    then have "frames_ok mcs (ms @ [?F])" using c2 top by (simp only: frames_ok_append simp_thms)
    then show "counts_consistent (Node mk mc mcs Null mr) \<and> frames_ok mcs (ms @ [?F])"
      using c1 by blast
  qed
  from 1 2 3 4 show ?case by blast
qed

text \<open>A change that enters a chain of ancestors with the right counts goes through all
  of it: the walk does not stop before the end of the chain.\<close>
lemma walk_through:
  "children_ok x \<Longrightarrow> frames_ok (counts_or_0 x) ps \<Longrightarrow> fst (update_counts x) \<Longrightarrow>
   \<exists>y. update_counts_to_root x (ps @ g # fs) = update_counts_to_root (plug g y) fs \<and>
       counts_consistent y \<and> entries y = entries (rebuild x ps) \<and>
       counts_or_0 y - counts_or_0 (rebuild x ps)
         = counts_or_0 (snd (update_counts x)) - counts_or_0 x"
proof (induction ps arbitrary: x)
  case Nil
  have "update_counts_to_root x ([] @ g # fs) = update_counts_to_root (plug g (snd (update_counts x))) fs"
    using Nil.prems(3) by simp
  moreover have "counts_consistent (snd (update_counts x))"
    using Nil.prems(1) by (rule consistent_update_counts)
  ultimately show ?case by (intro exI[of _ "snd (update_counts x)"]) simp
next
  case (Cons q qs)
  let ?x' = "snd (update_counts x)"
  let ?x1 = "plug q ?x'"
  from Cons.prems(2) have sib: "counts_consistent (frame_sibling q)"
    and eq: "frame_counts q = frame_count q + counts_or_0 x + counts_or_0 (frame_sibling q)"
    and up: "frames_ok (frame_counts q) qs" by (rule frames_ok_ConsD)+
  have x': "counts_consistent ?x'" using Cons.prems(1) by (rule consistent_update_counts)
  have ne: "counts_or_0 ?x' \<noteq> counts_or_0 x"
    using Cons.prems(3) by (cases x) (auto simp: Let_def)
  have c1: "children_ok ?x1" using x' sib by (rule children_ok_plug)
  have c2: "frames_ok (counts_or_0 ?x1) qs" using up by (simp only: counts_plug)
  have new1: "counts_or_0 (snd (update_counts ?x1))
       = frame_count q + counts_or_0 ?x' + counts_or_0 (frame_sibling q)"
    by (cases q) (simp_all add: Let_def)
  have c3: "fst (update_counts ?x1)"
    using ne eq by (cases q) (simp_all add: Let_def)
  from Cons.IH[OF c1 c2 c3] obtain y where
    y1: "update_counts_to_root ?x1 (qs @ g # fs) = update_counts_to_root (plug g y) fs"
    and y2: "counts_consistent y" and y3: "entries y = entries (rebuild ?x1 qs)"
    and y4: "counts_or_0 y - counts_or_0 (rebuild ?x1 qs)
         = counts_or_0 (snd (update_counts ?x1)) - counts_or_0 ?x1" by blast
  have a: "update_counts_to_root x ((q # qs) @ g # fs) = update_counts_to_root (plug g y) fs"
    using y1 Cons.prems(3) by simp
  have b: "entries y = entries (rebuild x (q # qs))"
    using y3 by (simp add: entries_rebuild entries_plug)
  have "counts_or_0 (rebuild ?x1 qs) = counts_or_0 (rebuild x (q # qs))"
    by (simp add: counts_rebuild)
  moreover have "counts_or_0 (snd (update_counts ?x1)) - counts_or_0 ?x1
      = counts_or_0 ?x' - counts_or_0 x"
    unfolding new1 counts_plug using eq by simp
  ultimately have c: "counts_or_0 y - counts_or_0 (rebuild x (q # qs))
         = counts_or_0 (snd (update_counts x)) - counts_or_0 x"
    using y4 by simp
  from a y2 b c show ?case by blast
qed

lemma sum_snd_nonneg:
  fixes es :: "('k \<times> int) list"
  shows "list_all (\<lambda>p. 0 < snd p) es \<Longrightarrow> 0 \<le> sum_list (map snd es)"
  by (induction es) auto

lemma total_nonneg: "list_all (\<lambda>p. 0 < snd p) (entries t) \<Longrightarrow> 0 \<le> subtree_total t"
  unfolding subtree_total_def by (rule sum_snd_nonneg)

lemma total_pos: "t \<noteq> Null \<Longrightarrow> list_all (\<lambda>p. 0 < snd p) (entries t) \<Longrightarrow> 0 < subtree_total t"
proof (cases t)
  case Null
  assume "t \<noteq> Null" then show ?thesis using Null by simp
next
  case (Node key cnt cs l r)
  assume p: "list_all (\<lambda>p. 0 < snd p) (entries t)"
  then have "0 < cnt" and "list_all (\<lambda>p. 0 < snd p) (entries l)"
    and "list_all (\<lambda>p. 0 < snd p) (entries r)" using Node by simp_all
  then have "0 < cnt" "0 \<le> subtree_total l" "0 \<le> subtree_total r" by (simp_all add: total_nonneg)
  then show ?thesis using Node by simp
qed

lemma unlink_ok:
  assumes cl: "counts_consistent l" and cr: "counts_consistent r"
    and fa: "frames_above_ok fs"
    and pl: "list_all (\<lambda>p. 0 < snd p) (entries l)"
    and pr: "list_all (\<lambda>p. 0 < snd p) (entries r)"
  shows "\<exists>t. hist_unlink l r fs = Inr t \<and> counts_consistent t \<and>
             entries t = ctx_before fs @ entries l @ entries r @ ctx_after fs"
proof -
  consider (noleft) "l = Null" | (noright) "l \<noteq> Null" "r = Null" | (both) "l \<noteq> Null" "r \<noteq> Null"
    by blast
  then show ?thesis
  proof cases
    case noleft
    obtain u us where pc: "parent_or_child r fs = (u, us)" by (cases "parent_or_child r fs")
    have "hist_unlink l r fs = Inr (update_counts_to_root u us)"
      using noleft pc by (simp add: hist_unlink_def)
    moreover have "counts_consistent (update_counts_to_root u us)"
      using cr fa pc by (rule transplant_consistent)
    moreover have "entries (update_counts_to_root u us)
        = ctx_before fs @ entries l @ entries r @ ctx_after fs"
      using parent_or_child_rebuild[OF pc] noleft
      by (simp add: entries_update_counts_to_root entries_rebuild)
    ultimately show ?thesis by blast
  next
    case noright
    obtain u us where pc: "parent_or_child l fs = (u, us)" by (cases "parent_or_child l fs")
    have "hist_unlink l r fs = Inr (update_counts_to_root u us)"
      using noright pc by (simp add: hist_unlink_def)
    moreover have "counts_consistent (update_counts_to_root u us)"
      using cl fa pc by (rule transplant_consistent)
    moreover have "entries (update_counts_to_root u us)
        = ctx_before fs @ entries l @ entries r @ ctx_after fs"
      using parent_or_child_rebuild[OF pc] noright
      by (simp add: entries_update_counts_to_root entries_rebuild)
    ultimately show ?thesis by blast
  next
    case both
    from minimum_shape[OF both(2), of "[]"] obtain mk mc mcs mr ms where
      m: "hist_minimum r [] = Inr (Node mk mc mcs Null mr, ms)"
      and rb: "rebuild (Node mk mc mcs Null mr) ms = r"
      and cb: "ctx_before ms = []"
      and cm: "counts_consistent (Node mk mc mcs Null mr)" and fm: "frames_ok mcs ms"
      using cr by auto
    from cm have mcs: "mcs = mc + counts_or_0 mr" and cmr: "counts_consistent mr" by simp_all
    have er: "entries r = (mk, mc) # entries mr @ ctx_after ms"
      using rb cb entries_rebuild[of "Node mk mc mcs Null mr" ms] by simp
    have mcpos: "0 < mc" using pr er by simp
    have lpos: "0 < counts_or_0 l"
      using total_pos[OF both(1) pl] consistent_counts_total[OF cl] by simp
    show ?thesis
    proof (cases ms)
      case Nil
      let ?m' = "Node mk mc mcs l mr"
      have u: "hist_unlink l r fs = Inr (update_counts_to_root ?m' fs)"
        using both m Nil by (simp add: hist_unlink_def)
      have "children_ok ?m'" using cl cmr by simp
      moreover have "fst (update_counts ?m')" using mcs lpos by (simp add: Let_def)
      ultimately have "counts_consistent (update_counts_to_root ?m' fs)"
        using fa by (intro walk_consistent) auto
      moreover have "entries (update_counts_to_root ?m' fs)
          = ctx_before fs @ entries l @ entries r @ ctx_after fs"
        using er Nil by (simp add: entries_update_counts_to_root entries_rebuild)
      ultimately show ?thesis using u by blast
    next
      case (Cons p ps)
      let ?g = "RightOf mk mc mcs l"
      let ?x = "plug p mr"
      have u: "hist_unlink l r fs = Inr (update_counts_to_root ?x (ps @ ?g # fs))"
        using both m Cons by (simp add: hist_unlink_def)
      from fm have "frames_ok mcs (p # ps)" unfolding Cons .
      then have sib: "counts_consistent (frame_sibling p)"
        and eq: "frame_counts p = frame_count p + mcs + counts_or_0 (frame_sibling p)"
        and up: "frames_ok (frame_counts p) ps" by (rule frames_ok_ConsD)+
      have x1: "children_ok ?x" using cmr sib by (rule children_ok_plug)
      have x2: "frames_ok (counts_or_0 ?x) ps" using up by (simp only: counts_plug)
      have newx: "counts_or_0 (snd (update_counts ?x))
          = frame_count p + counts_or_0 mr + counts_or_0 (frame_sibling p)"
        by (cases p) (simp_all add: Let_def)
      have x3: "fst (update_counts ?x)"
        using eq mcs mcpos by (cases p) (simp_all add: Let_def)
      from walk_through[OF x1 x2 x3, of ?g fs] obtain y where
        y1: "update_counts_to_root ?x (ps @ ?g # fs) = update_counts_to_root (plug ?g y) fs"
        and y2: "counts_consistent y"
        and y4: "counts_or_0 y - counts_or_0 (rebuild ?x ps)
           = counts_or_0 (snd (update_counts ?x)) - counts_or_0 ?x" by blast
      have "counts_or_0 (rebuild ?x ps) = counts_or_0 (rebuild (Node mk mc mcs Null mr) ms)"
        unfolding Cons by (simp add: counts_rebuild)
      then have top: "counts_or_0 (rebuild ?x ps) = subtree_total r"
        using rb consistent_counts_total[OF cr] by simp
      have "counts_or_0 (snd (update_counts ?x)) - counts_or_0 ?x = - mc"
        unfolding newx counts_plug using eq mcs by simp
      then have ycount: "counts_or_0 y = subtree_total r - mc" using y4 top by simp
      have "0 \<le> sum_list (map snd (ctx_after ms))"
        using pr er by (intro sum_snd_nonneg) simp
      moreover have "subtree_total r = mc + subtree_total mr + sum_list (map snd (ctx_after ms))"
        using er by (simp add: subtree_total_def)
      moreover have "counts_or_0 mr = subtree_total mr" using cmr by (rule consistent_counts_total)
      ultimately have big: "mcs \<le> subtree_total r" using mcs by simp
      let ?m' = "Node mk mc mcs l y"
      have "children_ok ?m'" using cl y2 by simp
      moreover have "fst (update_counts ?m')" using ycount lpos big by (simp add: Let_def)
      ultimately have "counts_consistent (update_counts_to_root ?m' fs)"
        using fa by (intro walk_consistent) auto
      then have c: "counts_consistent (update_counts_to_root ?x (ps @ ?g # fs))"
        using y1 by simp
      have "entries (rebuild ?x (ps @ ?g # fs))
          = ctx_before fs @ entries l @ [(mk, mc)] @ ctx_before ps @ entries ?x @ ctx_after ps @ ctx_after fs"
        by (simp add: entries_rebuild ctx_before_append ctx_after_append)
      moreover have "ctx_before ps = []" and "ctx_before [p] = []"
        using cb Cons by (cases p; simp)+
      moreover have "entries ?x = entries mr @ ctx_after [p]"
        using \<open>ctx_before [p] = []\<close> by (simp add: entries_plug)
      moreover have "ctx_after ms = ctx_after [p] @ ctx_after ps"
        unfolding Cons using ctx_after_append[of "[p]" ps] by simp
      ultimately have "entries (update_counts_to_root ?x (ps @ ?g # fs))
          = ctx_before fs @ entries l @ entries r @ ctx_after fs"
        using er by (simp add: entries_update_counts_to_root)
      then show ?thesis using u c by blast
    qed
  qed
qed

lemma get_amount: "keys_sorted (root H) \<Longrightarrow> hist_get H k = amount (entries (root H)) k"
  unfolding hist_get_def hist_lookup_def by (rule lookup_amount)

lemma inv_create: "hist_inv hist_create"
  by (simp add: hist_inv_def hist_create_def keys_sorted_def counts_positive_def)

lemma inv_clear: "hist_inv (hist_clear H)"
  by (simp add: hist_inv_def hist_clear_def keys_sorted_def counts_positive_def)

lemma insert_ok:
  assumes "hist_inv H" and "0 \<le> c"
  shows "\<exists>H'. hist_insert H k c = Inr H' \<and> hist_inv H' \<and>
           (\<forall>j. hist_get H' j = hist_get H j + (if j = k then c else 0))"
proof (cases "0 < c")
  case True
  let ?H' = "H \<lparr> root := hist_insert_rec (root H) k c \<rparr>"
  from assms(1) have cc: "counts_consistent (root H)" and ks: "keys_sorted (root H)"
    and cp: "counts_positive (root H)" by (simp_all add: hist_inv_def)
  have 1: "hist_insert H k c = Inr ?H'" using True by (simp add: hist_insert_def)
  have ks': "keys_sorted (root ?H')" using ks by (simp add: sorted_insert_rec)
  have 2: "hist_inv ?H'"
    using cc ks' cp True by (simp add: hist_inv_def counts_insert_rec positive_insert_rec)
  have 3: "hist_get ?H' j = hist_get H j + (if j = k then c else 0)" for j
    using get_amount[OF ks'] get_amount[OF ks] amount_insert_rec[OF ks, of k c j] by simp
  from 1 2 3 show ?thesis by blast
next
  case False
  then have "c = 0" using assms(2) by simp
  then show ?thesis using assms(1) by (simp add: hist_insert_def)
qed

lemma delete_located:
  assumes inv: "hist_inv H" and lk: "hist_lookup H v = (Node key cnt cs l r, fs)"
  shows "key = v" and "hist_get H v = cnt" and "0 < cnt"
    and "entries (root H) = ctx_before fs @ entries l @ (v, cnt) # entries r @ ctx_after fs"
    and "counts_consistent l" and "counts_consistent r" and "frames_ok cs fs"
proof -
  from inv have cc: "counts_consistent (root H)" and cp: "counts_positive (root H)"
    by (simp_all add: hist_inv_def)
  show k: "key = v" using lk lookup_found unfolding hist_lookup_def by metis
  show "hist_get H v = cnt" using lk by (simp add: hist_get_def)
  have e: "rebuild (Node key cnt cs l r) fs = root H"
    using lk lookup_rebuild[of "root H" "[]" v] by (simp add: hist_lookup_def)
  show es: "entries (root H) = ctx_before fs @ entries l @ (v, cnt) # entries r @ ctx_after fs"
    using arg_cong[OF e, of entries] k by (simp add: entries_rebuild)
  show "0 < cnt" using cp es by (simp add: counts_positive_def)
  have "hist_lookup_from (root H) [] v = (Node key cnt cs l r, fs)"
    using lk by (simp add: hist_lookup_def)
  moreover have "frames_ok (counts_or_0 (root H)) []" by simp
  ultimately have "counts_consistent (Node key cnt cs l r) \<and>
      frames_ok (counts_or_0 (Node key cnt cs l r)) fs"
    using cc by (intro lookup_frames_ok)
  then have a: "counts_consistent (Node key cnt cs l r)"
    and b: "frames_ok (counts_or_0 (Node key cnt cs l r)) fs" by blast+
  from a show "counts_consistent l" and "counts_consistent r" by simp_all
  from b show "frames_ok cs fs" by simp
qed

lemma delete_absent:
  assumes "hist_inv H" and "hist_get H v = 0"
  shows "hist_delete H v c = Inr H"
proof -
  obtain n fs where lk: "hist_lookup H v = (n, fs)" by (cases "hist_lookup H v")
  have "n = Null"
  proof (cases n)
    case Null then show ?thesis .
  next
    case (Node key cnt cs l r)
    from delete_located(2,3)[OF assms(1) lk[unfolded Node]] assms(2)
    show ?thesis by simp
  qed
  then show ?thesis using lk by (simp add: hist_delete_def)
qed

text \<open>What \<^verbatim>\<open>hist_delete\<close> does for every \<open>c\<close>: an absent key is left alone; of a key that is
  present, \<open>c\<close> occurrences go, or all of them when there are not more than \<open>c\<close>.\<close>

lemma delete_effect:
  assumes inv: "hist_inv H"
  shows "\<exists>H'. hist_delete H v c = Inr H' \<and> hist_inv H' \<and>
           (\<forall>j. hist_get H' j = (if j = v \<and> hist_get H v \<noteq> 0
                                  then max 0 (hist_get H v - c) else hist_get H j)) \<and>
           subtree_total (root H') = subtree_total (root H) -
             (if hist_get H v = 0 then 0 else min c (hist_get H v))"
proof -
  obtain n fs where lk: "hist_lookup H v = (n, fs)" by (cases "hist_lookup H v")
  from inv have ks: "keys_sorted (root H)" and cp: "counts_positive (root H)"
    by (simp_all add: hist_inv_def)
  show ?thesis
  proof (cases n)
    case Null
    then have "hist_get H v = 0" using lk by (simp add: hist_get_def)
    moreover have "hist_delete H v c = Inr H" using lk Null by (simp add: hist_delete_def)
    ultimately show ?thesis using inv by simp
  next
    case (Node key cnt cs l r)
    note loc = delete_located[OF inv lk[unfolded Node]]
    have key: "key = v" and cnt: "hist_get H v = cnt" and pos: "0 < cnt"
      and es: "entries (root H) = ctx_before fs @ entries l @ (v, cnt) # entries r @ ctx_after fs"
      and cl: "counts_consistent l" and cr: "counts_consistent r" and fo: "frames_ok cs fs"
      using loc by blast+
    let ?B = "ctx_before fs" and ?A = "ctx_after fs"
    have srt: "sorted_wrt (<) (map fst (?B @ entries l @ (v, cnt) # entries r @ ?A))"
      using ks es by (simp add: keys_sorted_def)
    have allp: "list_all (\<lambda>p. 0 < snd p) (?B @ entries l @ (v, cnt) # entries r @ ?A)"
      using cp es by (simp add: counts_positive_def)
    have fa: "frames_above_ok fs" using fo by (rule frames_ok_above)
    show ?thesis
    proof (cases "0 < cnt - c")
      case True
      let ?t = "update_counts_to_root (Node key (cnt - c) cs l r) fs"
      let ?H' = "H \<lparr> root := ?t \<rparr>"
      have 1: "hist_delete H v c = Inr ?H'"
        using lk Node True by (simp add: hist_delete_def Let_def)
      have et: "entries ?t = ?B @ entries l @ (v, cnt - c) # entries r @ ?A"
        using key by (simp add: entries_update_counts_to_root entries_rebuild)
      have "children_ok (Node key (cnt - c) cs l r)" using cl cr by simp
      then have ct: "counts_consistent ?t" using fa fo by (intro walk_consistent) auto
      have st: "keys_sorted ?t" using srt unfolding keys_sorted_def et by simp
      have pt: "counts_positive ?t" using allp True unfolding counts_positive_def et by simp
      have 2: "hist_inv ?H'" using ct st pt by (simp add: hist_inv_def)
      have "keys_sorted (root ?H')" using st by simp
      then have "hist_get ?H' j = hist_get H j - (if j = v then c else 0)" for j
        using get_amount[of ?H' j] get_amount[OF ks, of j] et es by simp
      then have 3: "hist_get ?H' j = (if j = v \<and> hist_get H v \<noteq> 0
                                  then max 0 (hist_get H v - c) else hist_get H j)" for j
        using cnt pos True by simp
      have "subtree_total (root ?H') = subtree_total (root H) - c"
        by (simp add: subtree_total_def et es)
      then have 4: "subtree_total (root ?H') = subtree_total (root H) -
             (if hist_get H v = 0 then 0 else min c (hist_get H v))"
        using cnt pos True by simp
      from 1 2 3 4 show ?thesis by blast
    next
      case False
      have pl: "list_all (\<lambda>p. 0 < snd p) (entries l)" and pr: "list_all (\<lambda>p. 0 < snd p) (entries r)"
        using allp by simp_all
      from unlink_ok[OF cl cr fa pl pr] obtain t where
        u: "hist_unlink l r fs = Inr t" and ct: "counts_consistent t"
        and et: "entries t = ?B @ entries l @ entries r @ ?A" by blast
      let ?H' = "H \<lparr> root := t \<rparr>"
      have 1: "hist_delete H v c = Inr ?H'"
        using lk Node False u by (simp add: hist_delete_def Let_def)
      have st: "keys_sorted t" using srt unfolding keys_sorted_def et
        by (auto simp: sorted_wrt_append)
      have pt: "counts_positive t" using allp unfolding counts_positive_def et by simp
      have 2: "hist_inv ?H'" using ct st pt by (simp add: hist_inv_def)
      have "keys_sorted (root ?H')" using st by simp
      then have "hist_get ?H' j = hist_get H j - (if j = v then cnt else 0)" for j
        using get_amount[of ?H' j] get_amount[OF ks, of j] et es by simp
      then have 3: "hist_get ?H' j = (if j = v \<and> hist_get H v \<noteq> 0
                                  then max 0 (hist_get H v - c) else hist_get H j)" for j
        using cnt pos False by simp
      have "subtree_total (root ?H') = subtree_total (root H) - cnt"
        by (simp add: subtree_total_def et es)
      then have 4: "subtree_total (root ?H') = subtree_total (root H) -
             (if hist_get H v = 0 then 0 else min c (hist_get H v))"
        using cnt pos False by simp
      from 1 2 3 4 show ?thesis by blast
    qed
  qed
qed

lemma delete_ok:
  assumes inv: "hist_inv H" and c0: "0 \<le> c" and le: "c \<le> hist_get H v"
  shows "\<exists>H'. hist_delete H v c = Inr H' \<and> hist_inv H' \<and>
           (\<forall>j. hist_get H' j = hist_get H j - (if j = v then c else 0))"
proof -
  from delete_effect[OF inv, of v c] obtain H' where
    1: "hist_delete H v c = Inr H'" and 2: "hist_inv H'"
    and 3: "\<forall>j. hist_get H' j = (if j = v \<and> hist_get H v \<noteq> 0
                                  then max 0 (hist_get H v - c) else hist_get H j)" by blast
  have "hist_get H' j = hist_get H j - (if j = v then c else 0)" for j
    using 3 c0 le by (cases "hist_get H v = 0") auto
  then show ?thesis using 1 2 by blast
qed

subsection \<open>Results of the operations\<close>

lemma insert_result:
  assumes "hist_inv H" and "hist_insert H k c = Inr H'"
  shows "hist_inv H'"
    and "hist_get H' j = hist_get H j + (if j = k \<and> 0 < c then c else 0)"
proof -
  have "hist_inv H' \<and> hist_get H' j = hist_get H j + (if j = k \<and> 0 < c then c else 0)"
  proof (cases "0 < c")
    case True
    then have "0 \<le> c" by simp
    from insert_ok[OF assms(1) this, of k] assms(2) True show ?thesis by auto
  next
    case False
    then have "H' = H" using assms(2) by (simp add: hist_insert_def)
    then show ?thesis using assms(1) False by simp
  qed
  then show "hist_inv H'"
    and "hist_get H' j = hist_get H j + (if j = k \<and> 0 < c then c else 0)" by blast+
qed

lemma get_nonneg: "hist_inv H \<Longrightarrow> 0 \<le> hist_get H k"
proof -
  assume inv: "hist_inv H"
  then have "list_all (\<lambda>p. 0 \<le> snd p) (entries (root H))"
    by (auto simp: hist_inv_def counts_positive_def list_all_iff less_imp_le)
  then have "0 \<le> amount (entries (root H)) k" by (rule amount_nonneg)
  then show ?thesis using inv get_amount[of H k] by (simp add: hist_inv_def)
qed

lemma delete_result:
  assumes "hist_inv H" and "hist_delete H v c = Inr H'"
  shows "hist_inv H'"
    and "hist_get H' j = (if j = v \<and> hist_get H v \<noteq> 0
                           then max 0 (hist_get H v - c) else hist_get H j)"
  using delete_effect[OF assms(1), of v c] assms(2) by auto

lemma apply_op_inv: "hist_inv H \<Longrightarrow> apply_op H x = Inr H' \<Longrightarrow> hist_inv H'"
  by (cases x) (auto intro: insert_result(1) delete_result(1))

lemma apply_ops_inv: "hist_inv H \<Longrightarrow> apply_ops H xs = Inr H' \<Longrightarrow> hist_inv H'"
proof (induction xs arbitrary: H)
  case Nil
  then show ?case by simp
next
  case (Cons x xs)
  from Cons.prems(2) obtain H1 where 1: "apply_op H x = Inr H1" and 2: "apply_ops H1 xs = Inr H'"
    by (auto split: sum.splits)
  have "hist_inv H1" using Cons.prems(1) 1 by (rule apply_op_inv)
  then show ?case using 2 by (rule Cons.IH)
qed

lemma reachable_inv: "apply_ops hist_create xs = Inr H \<Longrightarrow> hist_inv H"
  using inv_create by (rule apply_ops_inv)

subsection \<open>The invariant gives the ordering and the check of the source\<close>


lemma root_key_in_entries: "t = Node key cnt cs l r \<Longrightarrow> (key, cnt) \<in> set (entries t)"
  by simp


subsection \<open>Emptiness and absent keys\<close>

lemma get_absent: "k \<notin> fst ` set (entries (root H)) \<Longrightarrow> hist_get H k = 0"
proof -
  assume a: "k \<notin> fst ` set (entries (root H))"
  obtain n fs where lk: "hist_lookup_from (root H) [] k = (n, fs)"
    by (cases "hist_lookup_from (root H) [] k")
  show ?thesis
  proof (cases n)
    case Null
    then show ?thesis using lk by (simp add: hist_get_def hist_lookup_def)
  next
    case (Node key cnt cs l r)
    have "key = k" using lk Node lookup_found by metis
    moreover have "entries (root H) = entries (rebuild n fs)"
      using lookup_rebuild[OF lk] by simp
    ultimately have "(k, cnt) \<in> set (entries (root H))"
      using Node by (simp add: entries_rebuild)
    then show ?thesis using a by force
  qed
qed

lemma inv_empty_iff_Null: "hist_inv H \<Longrightarrow> hist_is_empty H = (root H = Null)"
proof -
  assume inv: "hist_inv H"
  have "root H \<noteq> Null \<Longrightarrow> counts_or_0 (root H) \<noteq> 0"
  proof -
    assume "root H \<noteq> Null"
    then have "0 < subtree_total (root H)" using inv by (intro total_pos) (simp_all add: hist_inv_def counts_positive_def)
    then show ?thesis using inv consistent_counts_total[of "root H"] by (simp add: hist_inv_def)
  qed
  then show ?thesis by (auto simp: hist_is_empty_def)
qed


subsection \<open>Sequences of calls\<close>

lemma net_count_append: "net_count (xs @ ys) k = net_count xs k + net_count ys k"
  by (simp add: net_count_def)

lemma net_count_single: "net_count [x] k = signed_amount x k"
  by (simp add: net_count_def)

lemma net_total_append: "net_total (xs @ ys) = net_total xs + net_total ys"
  by (simp add: net_total_def)

lemma total_insert_rec: "subtree_total (hist_insert_rec t k c) = subtree_total t + c"
  by (induction t) (auto simp: subtree_total_def hist_new_node_def Let_def)

lemma insert_total:
  "hist_insert H k c = Inr H' \<Longrightarrow>
   subtree_total (root H') = subtree_total (root H) + (if 0 < c then c else 0)"
  by (auto simp: hist_insert_def total_insert_rec split: if_splits)

lemma amount_le_sum:
  fixes es :: "('k \<times> int) list"
  shows "list_all (\<lambda>p. 0 \<le> snd p) es \<Longrightarrow> amount es k \<le> sum_list (map snd es)"
  by (induction es) auto

lemma get_le_total: "hist_inv H \<Longrightarrow> hist_get H k \<le> subtree_total (root H)"
proof -
  assume inv: "hist_inv H"
  then have "list_all (\<lambda>p. 0 \<le> snd p) (entries (root H))"
    by (auto simp: hist_inv_def counts_positive_def list_all_iff less_imp_le)
  then have "amount (entries (root H)) k \<le> sum_list (map snd (entries (root H)))"
    by (rule amount_le_sum)
  then show ?thesis using inv get_amount[of H k] by (simp add: hist_inv_def subtree_total_def)
qed

lemma run_preconditions:
  "hist_inv H \<Longrightarrow> (\<forall>k. hist_get H k = net_count past k) \<Longrightarrow>
   subtree_total (root H) = net_total past \<Longrightarrow> preconditions_hold past todo \<Longrightarrow>
   \<exists>H'. apply_ops H todo = Inr H' \<and> hist_inv H' \<and>
        (\<forall>k. hist_get H' k = net_count (past @ todo) k) \<and>
        subtree_total (root H') = net_total (past @ todo)"
proof (induction todo arbitrary: H past)
  case Nil
  then show ?case by simp
next
  case (Cons x todo)
  show ?case
  proof (cases x)
    case (Insert k c)
    from Cons.prems(4) Insert have c: "0 \<le> c"
      and rest: "preconditions_hold (past @ [x]) todo" by simp_all
    from insert_ok[OF Cons.prems(1) c, of k] obtain H1 where
      1: "hist_insert H k c = Inr H1" and 2: "hist_inv H1"
      and 3: "\<forall>j. hist_get H1 j = hist_get H j + (if j = k then c else 0)" by blast
    have g: "\<forall>j. hist_get H1 j = net_count (past @ [x]) j"
      using 3 Cons.prems(2) Insert by (simp add: net_count_append net_count_single)
    have t: "subtree_total (root H1) = net_total (past @ [x])"
      using insert_total[OF 1] Cons.prems(3) c Insert by (simp add: net_total_append net_total_def)
    from Cons.IH[OF 2 g t rest] obtain H' where
      "apply_ops H1 todo = Inr H'" "hist_inv H'"
      "\<forall>k. hist_get H' k = net_count ((past @ [x]) @ todo) k"
      "subtree_total (root H') = net_total ((past @ [x]) @ todo)" by blast
    then show ?thesis using 1 Insert by simp
  next
    case (Delete k c)
    from Cons.prems(4) Delete have c: "0 \<le> c" and le: "c \<le> net_count past k"
      and rest: "preconditions_hold (past @ [x]) todo" by simp_all
    have le': "c \<le> hist_get H k" using le Cons.prems(2) by simp
    from delete_effect[OF Cons.prems(1), of k c] obtain H1 where
      1: "hist_delete H k c = Inr H1" and 2: "hist_inv H1"
      and 3: "\<forall>j. hist_get H1 j = (if j = k \<and> hist_get H k \<noteq> 0
                                  then max 0 (hist_get H k - c) else hist_get H j)"
      and 4: "subtree_total (root H1) = subtree_total (root H) -
             (if hist_get H k = 0 then 0 else min c (hist_get H k))" by blast
    have "hist_get H1 j = hist_get H j - (if j = k then c else 0)" for j
      using 3 c le' by (cases "hist_get H k = 0") auto
    then have g: "\<forall>j. hist_get H1 j = net_count (past @ [x]) j"
      using Cons.prems(2) Delete by (simp add: net_count_append net_count_single)
    have "subtree_total (root H1) = subtree_total (root H) - c"
      using 4 c le' by (cases "hist_get H k = 0") auto
    then have t: "subtree_total (root H1) = net_total (past @ [x])"
      using Cons.prems(3) Delete by (simp add: net_total_append net_total_def)
    from Cons.IH[OF 2 g t rest] obtain H' where
      "apply_ops H1 todo = Inr H'" "hist_inv H'"
      "\<forall>k. hist_get H' k = net_count ((past @ [x]) @ todo) k"
      "subtree_total (root H') = net_total ((past @ [x]) @ todo)" by blast
    then show ?thesis using 1 Delete by simp
  qed
qed

lemma totals_fit_int_last:
  "totals_fit_int past todo \<Longrightarrow> is_c_int (net_total past) \<Longrightarrow> is_c_int (net_total (past @ todo))"
proof (induction todo arbitrary: past)
  case Nil
  then show ?case by simp
next
  case (Cons x todo)
  from Cons.prems(1) have "totals_fit_int (past @ [x]) todo" and "is_c_int (net_total (past @ [x]))"
    by simp_all
  then have "is_c_int (net_total ((past @ [x]) @ todo))" by (rule Cons.IH)
  then show ?case by simp
qed

lemma get_create: "hist_get hist_create k = 0"
  by (simp add: hist_get_def hist_lookup_def hist_create_def)



subsection \<open>Subtracting a histogram\<close>




text \<open>The equations that evaluate the operations on a given histogram.\<close>

lemmas hist_code = apply_ops.simps apply_op.simps hist_insert_def hist_delete_def hist_unlink_def
  hist_lookup_def hist_create_def hist_new_node_def hist_get_def hist_median_def c_div_def
  hist_is_empty_def hist_sub_def Let_def NDEBUG_def null_read_def


section \<open>The claims on the histogram\<close>



text \<open>
  C5, as stated: after every sequence of inserts and deletes that respects the preconditions,
  \<open>get(k)\<close> is the sum of the inserted minus the sum of the deleted multiplicities of \<open>k\<close>.
  \<^verbatim>\<open>hist_get\<close> returns an \<^verbatim>\<open>int\<close>, read from the \<^verbatim>\<open>int\<close> field \<^verbatim>\<open>count\<close>. After
  \<open>insert(5, 2147483647)\<close> and \<open>insert(5, 1)\<close>, two calls that respect the preconditions and
  pass values of \<^verbatim>\<open>int\<close>, the sum is 2147483648, which is no \<^verbatim>\<open>int\<close>: \<^verbatim>\<open>n->count += c\<close>
  overflows, and \<open>get(5)\<close> cannot return the sum. After \<open>insert(5, 2147483647)\<close> and
  \<open>insert(6, 1)\<close> the sum of each key is an \<^verbatim>\<open>int\<close>, but \<^verbatim>\<open>counts\<close> of the root, which holds
  the occurrences of all keys, would be 2147483648.
\<close>

theorem sum_of_multiplicities_exceeds_int:
  "preconditions_hold [] [Insert (5 :: 32 word) 2147483647, Insert 5 1] \<and>
   is_c_int 2147483647 \<and> is_c_int 1 \<and>
   net_count [Insert (5 :: 32 word) 2147483647, Insert 5 1] 5 = 2147483648 \<and>
   hist_get (projr (apply_ops hist_create [Insert (5 :: 32 word) 2147483647, Insert 5 1])) 5
     = 2147483648 \<and>
   \<not> is_c_int 2147483648 \<and>
   preconditions_hold [] [Insert (5 :: 32 word) 2147483647, Insert 6 1] \<and>
   counts_or_0 (root (projr (apply_ops hist_create [Insert (5 :: 32 word) 2147483647, Insert 6 1])))
     = 2147483648"
  by (simp add: hist_code net_count_def is_c_int_def INT_MAX_def INT_MIN_def)

text \<open>
  C5, amended. For every sequence of inserts and deletes from the empty histogram that
  respects the preconditions (no negative multiplicity, no delete of more occurrences than
  recorded) and stays in the range of \<^verbatim>\<open>int\<close> (every multiplicity passed, and the number of
  occurrences of all keys together after every call, which \<^verbatim>\<open>counts\<close> of the root holds),
  every call returns and \<open>get(k)\<close> is, for every key \<open>k\<close>, the sum of the inserted minus the
  sum of the deleted multiplicities of \<open>k\<close>, which is never negative and is an \<^verbatim>\<open>int\<close>.
  \<open>get\<close> returns a number, with no error; it is 0 for a key that no node holds;
  \<open>insert(k, 0)\<close> changes nothing.
\<close>

theorem get_is_inserted_minus_deleted:
  "(preconditions_hold [] calls \<and> totals_fit_int [] calls \<longrightarrow>
      (\<exists>H. apply_ops hist_create calls = Inr H \<and>
           (\<forall>k. hist_get H k = net_count calls k \<and> 0 \<le> hist_get H k \<and>
                is_c_int (hist_get H k)) \<and>
           counts_or_0 (root H) = net_total calls \<and> is_c_int (counts_or_0 (root H)))) \<and>
   (k \<notin> fst ` set (entries (root G)) \<longrightarrow> hist_get G k = 0) \<and>
   hist_insert G k 0 = Inr G"
proof (intro conjI impI)
  assume a: "preconditions_hold [] calls \<and> totals_fit_int [] calls"
  then have p: "preconditions_hold [] calls" and f: "totals_fit_int [] calls" by blast+
  have g0: "\<forall>k. hist_get hist_create k = net_count [] k" by (simp add: get_create net_count_def)
  have "\<exists>H. apply_ops hist_create calls = Inr H \<and> hist_inv H \<and>
      (\<forall>k. hist_get H k = net_count ([] @ calls) k) \<and>
      subtree_total (root H) = net_total ([] @ calls)"
    using inv_create g0 _ p
    by (rule run_preconditions) (simp add: hist_create_def subtree_total_def net_total_def)
  then obtain H where
    1: "apply_ops hist_create calls = Inr H" and 2: "hist_inv H"
    and 3: "\<forall>k. hist_get H k = net_count calls k"
    and 4: "subtree_total (root H) = net_total calls" by auto
  have nn: "0 \<le> hist_get H k" for k using 2 by (rule get_nonneg)
  have "is_c_int (net_total ([] @ calls))"
    using f by (rule totals_fit_int_last) (simp add: net_total_def is_c_int_def INT_MIN_def INT_MAX_def)
  then have fit: "is_c_int (subtree_total (root H))" using 4 by simp
  have cs: "counts_or_0 (root H) = subtree_total (root H)"
    using 2 by (intro consistent_counts_total) (simp add: hist_inv_def)
  have "is_c_int (hist_get H k)" for k
    using nn[of k] get_le_total[OF 2, of k] fit by (simp add: is_c_int_def INT_MIN_def)
  then show "\<exists>H. apply_ops hist_create calls = Inr H \<and>
           (\<forall>k. hist_get H k = net_count calls k \<and> 0 \<le> hist_get H k \<and>
                is_c_int (hist_get H k)) \<and>
           counts_or_0 (root H) = net_total calls \<and> is_c_int (counts_or_0 (root H))"
    using 1 3 4 nn fit cs by auto
next
  assume "k \<notin> fst ` set (entries (root G))"
  then show "hist_get G k = 0" by (rule get_absent)
next
  show "hist_insert G k 0 = Inr G" by (simp add: hist_insert_def)
qed

theorem get_is_inserted_minus_deleted_witness:
  "preconditions_hold [] [Insert (5 :: 32 word) 2, Insert 7 1, Delete 5 1, Insert 5 3, Delete 7 1] \<and>
   totals_fit_int [] [Insert (5 :: 32 word) 2, Insert 7 1, Delete 5 1, Insert 5 3, Delete 7 1] \<and>
   (\<exists>H. apply_ops hist_create [Insert (5 :: 32 word) 2, Insert 7 1, Delete 5 1, Insert 5 3, Delete 7 1] = Inr H \<and>
        hist_get H 5 = 4 \<and> hist_get H 7 = 0 \<and> counts_or_0 (root H) = 4) \<and>
   (9 :: 32 word) \<notin> fst ` set (entries (root \<lparr>root = Node 5 4 4 Null Null\<rparr>)) \<and>
   hist_get \<lparr>root = Node (5 :: 32 word) 4 4 Null Null\<rparr> 9 = 0 \<and>
   hist_insert \<lparr>root = Node (5 :: 32 word) 4 4 Null Null\<rparr> 9 0 = Inr \<lparr>root = Node 5 4 4 Null Null\<rparr>"
proof -
  let ?calls = "[Insert (5 :: 32 word) 2, Insert 7 1, Delete 5 1, Insert 5 3, Delete 7 1]"
  let ?G = "\<lparr>root = Node (5 :: 32 word) 4 4 Null Null\<rparr>"
  note t = get_is_inserted_minus_deleted[where calls = ?calls and G = ?G and k = 9]
  have p: "preconditions_hold [] ?calls" by (simp add: net_count_def)
  have f: "totals_fit_int [] ?calls"
    by (simp add: net_total_def is_c_int_def INT_MIN_def INT_MAX_def)
  have a: "(9 :: 32 word) \<notin> fst ` set (entries (root ?G))" by simp
  from t p f obtain H where 1: "apply_ops hist_create ?calls = Inr H"
    and 2: "\<forall>k. hist_get H k = net_count ?calls k \<and> 0 \<le> hist_get H k \<and> is_c_int (hist_get H k)"
    and 3: "counts_or_0 (root H) = net_total ?calls" by blast
  from 2 have "hist_get H 5 = 4" and "hist_get H 7 = 0" by (simp_all add: net_count_def)
  moreover from 3 have "counts_or_0 (root H) = 4" by (simp add: net_total_def)
  ultimately have "\<exists>H. apply_ops hist_create ?calls = Inr H \<and> hist_get H 5 = 4 \<and> hist_get H 7 = 0 \<and>
      counts_or_0 (root H) = 4" using 1 by blast
  moreover from t a have "hist_get ?G 9 = 0" by blast
  moreover from t have "hist_insert ?G 9 0 = Inr ?G" by blast
  ultimately show ?thesis using p f a by blast
qed






text \<open>
  C8, as stated: \<open>median()\<close> on an empty histogram signals an error; it does not leave the
  error undetected. In the source the signal is \<^verbatim>\<open>assert(n != NULL)\<close>, "can not find median
  of empty set", which the build compiles out: on the empty histogram \<^verbatim>\<open>hist_median\<close> goes
  on to \<^verbatim>\<open>target = H->root->counts / 2\<close> and reads through the null pointer \<^verbatim>\<open>H->root\<close>. No
  assertion fails.
\<close>

theorem median_of_empty_reads_null_root:
  "hist_is_empty (hist_create :: 32 word Hist) \<and>
   hist_median (hist_create :: 32 word Hist) = Inl Null_dereference \<and>
   hist_median (hist_create :: 32 word Hist) \<noteq> Inl Assert_not_null"
  by (simp add: hist_code)

text \<open>
  C8, amended. \<open>median()\<close> requires a histogram that is not empty, and the program that is
  built does not check it: on an empty histogram (reached from the empty one by inserts
  and deletes) \<^verbatim>\<open>hist_median\<close> reads \<^verbatim>\<open>counts\<close> through the null root pointer, which is
  undefined behaviour; it returns no value and signals no error.
\<close>

theorem median_of_empty_is_undefined:
  assumes "apply_ops hist_create calls = Inr H" and "hist_is_empty H"
  shows "hist_median H = Inl Null_dereference"
proof -
  have "hist_inv H" using assms(1) by (rule reachable_inv)
  then have "root H = Null" using assms(2) by (simp add: inv_empty_iff_Null)
  then show ?thesis by (simp add: hist_median_def)
qed

theorem median_of_empty_is_undefined_witness:
  "apply_ops hist_create [Insert (5 :: 32 word) 1, Delete 5 1] = Inr \<lparr>root = Null\<rparr> \<and>
   hist_is_empty \<lparr>root = (Null :: 32 word HistNode)\<rparr> \<and>
   hist_median \<lparr>root = (Null :: 32 word HistNode)\<rparr> = Inl Null_dereference"
proof -
  have run: "apply_ops hist_create [Insert (5 :: 32 word) 1, Delete 5 1] = Inr \<lparr>root = Null\<rparr>"
    by (simp add: hist_code)
  have e: "hist_is_empty \<lparr>root = (Null :: 32 word HistNode)\<rparr>" by (simp add: hist_is_empty_def)
  from median_of_empty_is_undefined[OF run e] run e show ?thesis by blast
qed

text \<open>
  C10. Insert and delete are local to their key: on a histogram reached from the empty
  one, for keys \<open>k \<noteq> j\<close> and a multiplicity \<open>c \<ge> 0\<close>, \<open>insert(k, c)\<close> succeeds and leaves
  \<open>get(j)\<close> as it was, and so does \<open>delete(k, c)\<close> when at least \<open>c\<close> occurrences of \<open>k\<close>
  are recorded.
\<close>

theorem insert_delete_leave_other_keys:
  assumes "apply_ops hist_create calls = Inr H" and "k \<noteq> j" and "0 \<le> c"
  shows "(\<exists>H'. hist_insert H k c = Inr H' \<and> hist_get H' j = hist_get H j) \<and>
         (c \<le> hist_get H k \<longrightarrow> (\<exists>H'. hist_delete H k c = Inr H' \<and> hist_get H' j = hist_get H j))"
proof -
  have inv: "hist_inv H" using assms(1) by (rule reachable_inv)
  from insert_ok[OF inv assms(3), of k] assms(2)
  have 1: "\<exists>H'. hist_insert H k c = Inr H' \<and> hist_get H' j = hist_get H j" by auto
  have 2: "c \<le> hist_get H k \<longrightarrow> (\<exists>H'. hist_delete H k c = Inr H' \<and> hist_get H' j = hist_get H j)"
  proof
    assume "c \<le> hist_get H k"
    from delete_ok[OF inv assms(3) this] assms(2)
    show "\<exists>H'. hist_delete H k c = Inr H' \<and> hist_get H' j = hist_get H j" by auto
  qed
  from 1 2 show ?thesis by blast
qed

theorem insert_delete_leave_other_keys_witness:
  "apply_ops hist_create [Insert (5 :: 32 word) 2, Insert 2 1]
     = Inr \<lparr>root = Node 5 2 3 (Node 2 1 1 Null Null) Null\<rparr> \<and>
   (5 :: 32 word) \<noteq> 2 \<and> (0 :: int) \<le> 2 \<and>
   2 \<le> hist_get \<lparr>root = Node (5 :: 32 word) 2 3 (Node 2 1 1 Null Null) Null\<rparr> 5 \<and>
   (\<exists>H'. hist_insert \<lparr>root = Node (5 :: 32 word) 2 3 (Node 2 1 1 Null Null) Null\<rparr> 5 2 = Inr H' \<and>
      hist_get H' 2 = hist_get \<lparr>root = Node (5 :: 32 word) 2 3 (Node 2 1 1 Null Null) Null\<rparr> 2) \<and>
   (\<exists>H'. hist_delete \<lparr>root = Node (5 :: 32 word) 2 3 (Node 2 1 1 Null Null) Null\<rparr> 5 2 = Inr H' \<and>
      hist_get H' 2 = hist_get \<lparr>root = Node (5 :: 32 word) 2 3 (Node 2 1 1 Null Null) Null\<rparr> 2)"
proof -
  let ?H = "\<lparr>root = Node (5 :: 32 word) 2 3 (Node 2 1 1 Null Null) Null\<rparr>"
  have run: "apply_ops hist_create [Insert (5 :: 32 word) 2, Insert 2 1] = Inr ?H"
    by (simp add: hist_code)
  have ne: "(5 :: 32 word) \<noteq> 2" by simp
  have c: "(0 :: int) \<le> 2" by simp
  have g: "2 \<le> hist_get ?H 5" by (simp add: hist_code)
  from insert_delete_leave_other_keys[OF run ne c] g run ne c show ?thesis by blast
qed

section \<open>Lemmas on the median\<close>

lemma expand_Nil [simp]: "expand [] = []"
  by (simp add: expand_def)

lemma expand_Cons [simp]: "expand ((k, c) # es) = replicate (nat c) k @ expand es"
  by (simp add: expand_def)

lemma expand_append [simp]: "expand (xs @ ys) = expand xs @ expand ys"
  by (simp add: expand_def)

lemma length_expand:
  fixes es :: "('k \<times> int) list"
  shows "list_all (\<lambda>p. 0 < snd p) es \<Longrightarrow> int (length (expand es)) = sum_list (map snd es)"
  by (induction es) auto

lemma length_expand_entries: "counts_positive t \<Longrightarrow> int (length (expand (entries t))) = subtree_total t"
  unfolding counts_positive_def subtree_total_def by (rule length_expand)

lemma set_expand: "set (expand es) \<subseteq> fst ` set es"
  by (induction es) (auto split: if_splits)

lemma sorted_expand:
  fixes es :: "('k::linorder \<times> int) list"
  shows "sorted_wrt (<) (map fst es) \<Longrightarrow> sorted (expand es)"
proof (induction es)
  case Nil
  then show ?case by simp
next
  case (Cons p es)
  obtain k c where p: "p = (k, c)" by (cases p)
  from Cons.prems have s: "sorted_wrt (<) (map fst es)" and lt: "\<forall>x \<in> set es. k < fst x"
    by (auto simp: p)
  have "\<forall>y \<in> set (expand es). k \<le> y"
  proof
    fix y assume "y \<in> set (expand es)"
    then obtain x where "x \<in> set es" and "y = fst x" using set_expand[of es] by auto
    then show "k \<le> y" using lt by (auto simp: less_imp_le)
  qed
  then show ?case using Cons.IH[OF s] by (simp add: p sorted_append)
qed

lemma median_loop_correct:
  "counts_consistent t \<Longrightarrow> counts_positive t \<Longrightarrow> 0 \<le> target \<Longrightarrow> target < subtree_total t \<Longrightarrow>
   hist_median_loop t target = Inr (expand (entries t) ! nat target)"
proof (induction t arbitrary: target)
  case Null
  then show ?case by simp
next
  case (Node key cnt cs l r)
  from Node.prems(1) have cs: "cs = cnt + counts_or_0 l + counts_or_0 r"
    and cl: "counts_consistent l" and cr: "counts_consistent r" by simp_all
  from Node.prems(2) have pl: "counts_positive l" and pr: "counts_positive r" and pc: "0 < cnt"
    by (simp_all add: counts_positive_def)
  have tl: "counts_or_0 l = subtree_total l" using cl by (rule consistent_counts_total)
  have tr: "counts_or_0 r = subtree_total r" using cr by (rule consistent_counts_total)
  have ll: "int (length (expand (entries l))) = subtree_total l" using pl by (rule length_expand_entries)
  have ge: "target \<le> cs" using Node.prems(4) cs tl tr by simp
  consider (left) "target < subtree_total l" | (here) "subtree_total l \<le> target" "target < subtree_total l + cnt"
    | (right) "subtree_total l + cnt \<le> target" by linarith
  then show ?case
  proof cases
    case left
    have "hist_median_loop l target = Inr (expand (entries l) ! nat target)"
      using cl pl Node.prems(3) left by (rule Node.IH(1))
    moreover have "nat target < length (expand (entries l))" using ll left Node.prems(3) by linarith
    ultimately show ?thesis using ge left tl by (simp add: Let_def nth_append)
  next
    case here
    have a: "\<not> nat target < length (expand (entries l))" using ll here(1) by linarith
    have b: "nat target - length (expand (entries l)) < nat cnt" using ll here by linarith
    show ?thesis using ge here tl a b by (simp add: Let_def nth_append)
  next
    case right
    let ?t' = "target - subtree_total l - cnt"
    have "hist_median_loop r ?t' = Inr (expand (entries r) ! nat ?t')"
      using cr pr right Node.prems(4) by (intro Node.IH(2)) simp_all
    moreover have a: "\<not> nat target < length (expand (entries l))" using ll right pc by linarith
    moreover have b: "\<not> nat target - length (expand (entries l)) < nat cnt"
      using ll right pc by linarith
    moreover have "nat target - length (expand (entries l)) - nat cnt = nat ?t'"
      using ll right pc by linarith
    ultimately show ?thesis using ge right tl pc by (simp add: Let_def nth_append)
  qed
qed

lemma c_div_2: "0 \<le> a \<Longrightarrow> c_div a 2 = a div 2"
  by (cases "a = 0") (simp_all add: c_div_def)

lemma median_correct:
  assumes inv: "hist_inv H" and ne: "\<not> hist_is_empty H"
  shows "hist_median H = Inr (expand (entries (root H)) ! (length (expand (entries (root H))) div 2))"
proof -
  from inv have cc: "counts_consistent (root H)" and cp: "counts_positive (root H)"
    by (simp_all add: hist_inv_def)
  from ne have nn: "root H \<noteq> Null" by (simp add: hist_is_empty_def)
  then obtain key cnt cs l r where rt: "root H = Node key cnt cs l r" by (cases "root H") auto
  have cs: "cs = subtree_total (root H)" using consistent_counts_total[OF cc] rt by simp
  have pos: "0 < subtree_total (root H)" using nn cp by (intro total_pos) (simp_all add: counts_positive_def)
  have len: "int (length (expand (entries (root H)))) = subtree_total (root H)"
    using cp by (rule length_expand_entries)
  have "c_div cs 2 = subtree_total (root H) div 2"
    unfolding cs using pos by (intro c_div_2) simp
  moreover have "hist_median H = hist_median_loop (root H) (c_div cs 2)"
    unfolding hist_median_def by (simp only: rt HistNode.case)
  ultimately have "hist_median H = hist_median_loop (root H) (subtree_total (root H) div 2)"
    by (simp only:)
  moreover have "hist_median_loop (root H) (subtree_total (root H) div 2)
      = Inr (expand (entries (root H)) ! nat (subtree_total (root H) div 2))"
    using cc cp pos by (intro median_loop_correct) simp_all
  moreover have "nat (subtree_total (root H) div 2) = length (expand (entries (root H))) div 2"
    using len by (metis nat_int zdiv_int of_nat_numeral)
  ultimately show ?thesis by simp
qed


section \<open>The claim on the median\<close>



section \<open>Lemmas on the row filter\<close>

subsection \<open>A histogram as a multiset of samples\<close>

lemma count_expand:
  fixes es :: "('k \<times> int) list"
  shows "list_all (\<lambda>p. 0 < snd p) es \<Longrightarrow> int (count (mset (expand es)) k) = amount es k"
  by (induction es) auto

lemma count_hist_mset: "hist_inv H \<Longrightarrow> int (count (hist_mset H) k) = hist_get H k"
proof -
  assume inv: "hist_inv H"
  then have "list_all (\<lambda>p. 0 < snd p) (entries (root H))"
    by (simp add: hist_inv_def counts_positive_def)
  then have "int (count (mset (expand (entries (root H)))) k) = amount (entries (root H)) k"
    by (rule count_expand)
  then show ?thesis using inv get_amount[of H k] by (simp add: hist_mset_def hist_inv_def)
qed

lemma hist_mset_create [simp]: "hist_mset hist_create = {#}"
  by (simp add: hist_mset_def hist_create_def)

lemma hist_mset_clear [simp]: "hist_mset (hist_clear H) = {#}"
  by (simp add: hist_mset_def hist_clear_def)

lemma insert_one:
  assumes "hist_inv H"
  shows "\<exists>H'. hist_insert H k 1 = Inr H' \<and> hist_inv H' \<and> hist_mset H' = hist_mset H + {#k#}"
proof -
  from insert_ok[OF assms, of 1 k] obtain H' where
    1: "hist_insert H k 1 = Inr H'" and 2: "hist_inv H'"
    and 3: "\<forall>j. hist_get H' j = hist_get H j + (if j = k then 1 else 0)" by auto
  have "int (count (hist_mset H') j) = int (count (hist_mset H + {#k#}) j)" for j
    using 3 count_hist_mset[OF 2, of j] count_hist_mset[OF assms, of j] by simp
  then have "hist_mset H' = hist_mset H + {#k#}"
    by (intro multiset_eqI) (simp only: of_nat_eq_iff)
  then show ?thesis using 1 2 by blast
qed

lemma delete_one:
  assumes "hist_inv H" and "k \<in># hist_mset H"
  shows "\<exists>H'. hist_delete H k 1 = Inr H' \<and> hist_inv H' \<and> hist_mset H' + {#k#} = hist_mset H"
proof -
  have "0 < count (hist_mset H) k" using assms(2) by simp
  then have "1 \<le> hist_get H k" using count_hist_mset[OF assms(1), of k] by linarith
  from delete_ok[OF assms(1) _ this] obtain H' where
    1: "hist_delete H k 1 = Inr H'" and 2: "hist_inv H'"
    and 3: "\<forall>j. hist_get H' j = hist_get H j - (if j = k then 1 else 0)" by auto
  have "int (count (hist_mset H' + {#k#}) j) = int (count (hist_mset H) j)" for j
    using 3 count_hist_mset[OF 2, of j] count_hist_mset[OF assms(1), of j] by simp
  then have "hist_mset H' + {#k#} = hist_mset H"
    by (intro multiset_eqI) (simp only: of_nat_eq_iff)
  then show ?thesis using 1 2 by blast
qed

lemma median_mset:
  assumes inv: "hist_inv H" and m: "mset xs = hist_mset H" and ne: "xs \<noteq> []"
  shows "hist_median H = Inr (median_of xs)"
proof -
  let ?ys = "expand (entries (root H))"
  from inv have ks: "sorted_wrt (<) (map fst (entries (root H)))"
    by (simp add: hist_inv_def keys_sorted_def)
  have my: "mset ?ys = mset xs" using m by (simp add: hist_mset_def)
  have "sorted ?ys" using ks by (rule sorted_expand)
  then have srt: "sort xs = ?ys" using my by (intro properties_for_sort)
  have len: "length xs = length ?ys" using my by (metis size_mset)
  have "root H \<noteq> Null"
  proof
    assume "root H = Null"
    then have "mset xs = {#}" using m by (simp add: hist_mset_def)
    then show False using ne by simp
  qed
  then have "\<not> hist_is_empty H" using inv by (simp add: inv_empty_iff_Null)
  then have "hist_median H = Inr (?ys ! (length ?ys div 2))" using inv by (intro median_correct)
  then show ?thesis by (simp add: median_of_def srt len)
qed

subsection \<open>Indices\<close>

lemma IDX_clamp: "IDX i j height width = clamp height i * width + clamp width j"
  by (simp add: IDX_def clamp_def Let_def)

lemma clamp_range: "0 < n \<Longrightarrow> 0 \<le> clamp n x \<and> clamp n x < n"
  by (simp add: clamp_def)

lemma clamp_id: "0 \<le> x \<Longrightarrow> x < n \<Longrightarrow> clamp n x = x"
  by (simp add: clamp_def)

lemma cell_range:
  fixes a b width height :: int
  assumes "0 \<le> a" "a < height" "0 \<le> b" "b < width"
  shows "0 \<le> a * width + b \<and> a * width + b < width * height"
proof -
  have "a * width + b < a * width + width" using assms by simp
  also have "\<dots> = (a + 1) * width" by (simp add: algebra_simps)
  also have "\<dots> \<le> height * width" using assms by (intro mult_right_mono) simp_all
  finally have "a * width + b < width * height" by (simp add: mult.commute)
  moreover have "0 \<le> a * width" using assms by simp
  ultimately show ?thesis using assms by simp
qed

lemma IDX_range:
  assumes "0 < width" and "0 < height"
  shows "0 \<le> IDX i j height width \<and> IDX i j height width < width * height"
  unfolding IDX_clamp using clamp_range[OF assms(2), of i] clamp_range[OF assms(1), of j]
  by (intro cell_range) simp_all

lemma buf_read_IDX:
  assumes "0 < width" and "0 < height" and "int (length inp) = width * height"
  shows "buf_read inp (IDX i j height width)
     = Inr (inp ! nat (clamp height i * width + clamp width j))"
  using IDX_range[OF assms(1,2), of i j] assms(3) by (simp add: buf_read_def IDX_clamp)

subsection \<open>Filling and shifting the histogram\<close>

lemma insert_loop:
  assumes "0 < width" and "0 < height" and "int (length inp) = width * height"
  shows "hist_inv H \<Longrightarrow>
    \<exists>H'. for_each ds (\<lambda>dj h. case buf_read inp (IDX a (b + dj) height width) of
                                 Inl e \<Rightarrow> Inl e | Inr val \<Rightarrow> hist_insert h val 1) H = Inr H' \<and>
         hist_inv H' \<and>
         hist_mset H' = hist_mset H
           + mset (map (\<lambda>dj. inp ! nat (clamp height a * width + clamp width (b + dj))) ds)"
proof (induction ds arbitrary: H)
  case Nil
  then show ?case by simp
next
  case (Cons d ds)
  let ?v = "inp ! nat (clamp height a * width + clamp width (b + d))"
  have rd: "buf_read inp (IDX a (b + d) height width) = Inr ?v" using assms by (rule buf_read_IDX)
  from insert_one[OF Cons.prems, of ?v] obtain H1 where
    1: "hist_insert H ?v 1 = Inr H1" and 2: "hist_inv H1"
    and 3: "hist_mset H1 = hist_mset H + {#?v#}" by blast
  from Cons.IH[OF 2] obtain H' where
    4: "for_each ds (\<lambda>dj h. case buf_read inp (IDX a (b + dj) height width) of
                                 Inl e \<Rightarrow> Inl e | Inr val \<Rightarrow> hist_insert h val 1) H1 = Inr H'"
    and 5: "hist_inv H'"
    and 6: "hist_mset H' = hist_mset H1
           + mset (map (\<lambda>dj. inp ! nat (clamp height a * width + clamp width (b + dj))) ds)"
    by blast
  show ?case using rd 1 4 5 6 3 by simp
qed

lemma fill_loop:
  assumes "0 < width" and "0 < height" and "int (length inp) = width * height"
  shows "hist_inv H \<Longrightarrow>
    \<exists>H'. for_each ds (\<lambda>di. for_each es (\<lambda>dj h.
               case buf_read inp (IDX (i + di) (j + dj) height width) of
                 Inl e \<Rightarrow> Inl e | Inr val \<Rightarrow> hist_insert h val 1)) H = Inr H' \<and>
         hist_inv H' \<and>
         hist_mset H' = hist_mset H
           + mset (concat (map (\<lambda>di. map (\<lambda>dj.
               inp ! nat (clamp height (i + di) * width + clamp width (j + dj))) es) ds))"
proof (induction ds arbitrary: H)
  case Nil
  then show ?case by simp
next
  case (Cons d ds)
  from insert_loop[OF assms Cons.prems, of es "i + d" j] obtain H1 where
    1: "for_each es (\<lambda>dj h. case buf_read inp (IDX (i + d) (j + dj) height width) of
                                 Inl e \<Rightarrow> Inl e | Inr val \<Rightarrow> hist_insert h val 1) H = Inr H1"
    and 2: "hist_inv H1"
    and 3: "hist_mset H1 = hist_mset H
           + mset (map (\<lambda>dj. inp ! nat (clamp height (i + d) * width + clamp width (j + dj))) es)"
    by blast
  from Cons.IH[OF 2] obtain H' where
    4: "for_each ds (\<lambda>di. for_each es (\<lambda>dj h.
               case buf_read inp (IDX (i + di) (j + dj) height width) of
                 Inl e \<Rightarrow> Inl e | Inr val \<Rightarrow> hist_insert h val 1)) H1 = Inr H'"
    and 5: "hist_inv H'"
    and 6: "hist_mset H' = hist_mset H1
           + mset (concat (map (\<lambda>di. map (\<lambda>dj.
               inp ! nat (clamp height (i + di) * width + clamp width (j + dj))) es) ds))"
    by blast
  show ?case using 1 4 5 6 3 by simp
qed

lemma fill_ok:
  assumes "0 < width" and "0 < height" and "int (length inp) = width * height"
    and "hist_inv H"
  shows "\<exists>H'. fill_histogram H inp i j radius width height = Inr H' \<and> hist_inv H' \<and>
           hist_mset H' = hist_mset H + mset (window inp i j radius width height)"
  unfolding fill_histogram_def window_def using assms by (rule fill_loop)

lemma shift_loop:
  assumes "0 < width" and "0 < height" and "int (length inp) = width * height"
  shows "hist_inv H \<Longrightarrow>
    mset (map (\<lambda>di. inp ! nat (clamp height (i + di) * width + clamp width jl)) ds) \<subseteq># hist_mset H \<Longrightarrow>
    \<exists>H'. for_each ds (\<lambda>di h.
             case buf_read inp (IDX (i + di) jl height width) of
               Inl e \<Rightarrow> Inl e
             | Inr val_left \<Rightarrow>
                 (case hist_delete h val_left 1 of
                    Inl e \<Rightarrow> Inl e
                  | Inr h1 \<Rightarrow>
                      (case buf_read inp (IDX (i + di) jr height width) of
                         Inl e \<Rightarrow> Inl e
                       | Inr val_right \<Rightarrow> hist_insert h1 val_right 1))) H = Inr H' \<and>
         hist_inv H' \<and>
         hist_mset H' + mset (map (\<lambda>di. inp ! nat (clamp height (i + di) * width + clamp width jl)) ds)
           = hist_mset H + mset (map (\<lambda>di. inp ! nat (clamp height (i + di) * width + clamp width jr)) ds)"
proof (induction ds arbitrary: H)
  case Nil
  then show ?case by simp
next
  case (Cons d ds)
  let ?L = "\<lambda>di. inp ! nat (clamp height (i + di) * width + clamp width jl)"
  let ?R = "\<lambda>di. inp ! nat (clamp height (i + di) * width + clamp width jr)"
  have rl: "buf_read inp (IDX (i + d) jl height width) = Inr (?L d)" using assms by (rule buf_read_IDX)
  have rr: "buf_read inp (IDX (i + d) jr height width) = Inr (?R d)" using assms by (rule buf_read_IDX)
  from Cons.prems(2) have sub: "{#?L d#} + mset (map ?L ds) \<subseteq># hist_mset H" by simp
  then have "?L d \<in># hist_mset H" by (meson mset_subset_eq_insertD add_mset_add_single subset_mset.order_trans mset_subset_eq_add_left single_subset_iff)
  from delete_one[OF Cons.prems(1) this] obtain H1 where
    1: "hist_delete H (?L d) 1 = Inr H1" and 2: "hist_inv H1"
    and 3: "hist_mset H1 + {#?L d#} = hist_mset H" by blast
  from insert_one[OF 2, of "?R d"] obtain H2 where
    4: "hist_insert H1 (?R d) 1 = Inr H2" and 5: "hist_inv H2"
    and 6: "hist_mset H2 = hist_mset H1 + {#?R d#}" by blast
  have "mset (map ?L ds) + {#?L d#} \<subseteq># hist_mset H1 + {#?L d#}" using sub 3 by (simp add: ac_simps)
  then have "mset (map ?L ds) \<subseteq># hist_mset H1" by simp
  moreover have "hist_mset H1 \<subseteq># hist_mset H2" unfolding 6 by simp
  ultimately have pre: "mset (map ?L ds) \<subseteq># hist_mset H2" by (rule subset_mset.order_trans)
  from Cons.IH[OF 5 pre] obtain H' where
    7: "for_each ds (\<lambda>di h.
             case buf_read inp (IDX (i + di) jl height width) of
               Inl e \<Rightarrow> Inl e
             | Inr val_left \<Rightarrow>
                 (case hist_delete h val_left 1 of
                    Inl e \<Rightarrow> Inl e
                  | Inr h1 \<Rightarrow>
                      (case buf_read inp (IDX (i + di) jr height width) of
                         Inl e \<Rightarrow> Inl e
                       | Inr val_right \<Rightarrow> hist_insert h1 val_right 1))) H2 = Inr H'"
    and 8: "hist_inv H'"
    and 9: "hist_mset H' + mset (map ?L ds) = hist_mset H2 + mset (map ?R ds)" by blast
  have "hist_mset H' + mset (map ?L (d # ds)) = (hist_mset H' + mset (map ?L ds)) + {#?L d#}"
    by simp
  also have "\<dots> = hist_mset H1 + {#?L d#} + {#?R d#} + mset (map ?R ds)"
    unfolding 9 6 by (simp add: ac_simps)
  also have "\<dots> = hist_mset H + mset (map ?R (d # ds))" unfolding 3 by simp
  finally have 10: "hist_mset H' + mset (map ?L (d # ds)) = hist_mset H + mset (map ?R (d # ds))" .
  show ?case using rl rr 1 4 7 8 10 by simp
qed

lemma upto_shift: "map (\<lambda>x. x + 1) [a..b] = [a + 1..b + 1]"
proof (induction a b rule: upto.induct)
  case (1 i j)
  show ?case
  proof (cases "i \<le> j")
    case True
    then have "[i..j] = i # [i + 1..j]" by (simp add: upto_rec1)
    moreover have "[i + 1..j + 1] = (i + 1) # [i + 1 + 1..j + 1]" using True by (simp add: upto_rec1)
    ultimately show ?thesis using "1.IH"[OF True] by simp
  next
    case False
    then show ?thesis by simp
  qed
qed

lemma row_shift:
  fixes f :: "int \<Rightarrow> 'a" and r j :: int
  assumes "0 \<le> r"
  shows "mset (map (\<lambda>dj. f (j + dj)) [- r..r]) + {#f (j + r + 1)#}
       = {#f (j - r)#} + mset (map (\<lambda>dj. f (j + 1 + dj)) [- r..r])"
proof -
  have a: "[- r..r] = (- r) # [- r + 1..r]" using assms by (simp add: upto_rec1)
  have "map (\<lambda>dj. f (j + 1 + dj)) [- r..r] = map (\<lambda>x. f (j + x)) (map (\<lambda>x. x + 1) [- r..r])"
    by (simp add: comp_def ac_simps)
  also have "\<dots> = map (\<lambda>x. f (j + x)) [- r + 1..r + 1]" by (simp only: upto_shift)
  also have "[- r + 1..r + 1] = [- r + 1..r] @ [r + 1]" using assms by (simp add: upto_rec2)
  finally have b: "map (\<lambda>dj. f (j + 1 + dj)) [- r..r]
      = map (\<lambda>x. f (j + x)) [- r + 1..r] @ [f (j + (r + 1))]" by simp
  have "mset (map (\<lambda>dj. f (j + dj)) [- r..r])
      = {#f (j - r)#} + mset (map (\<lambda>x. f (j + x)) [- r + 1..r])"
    by (subst a) simp
  then show ?thesis unfolding b by (simp add: add.assoc)
qed

lemma window_shift:
  assumes "0 \<le> radius"
  shows "mset (window inp i j radius width height)
           + mset (map (\<lambda>di. inp ! nat (clamp height (i + di) * width + clamp width (j + radius + 1)))
                    [- radius..radius])
       = mset (map (\<lambda>di. inp ! nat (clamp height (i + di) * width + clamp width (j - radius)))
                    [- radius..radius])
           + mset (window inp i (j + 1) radius width height)"
proof -
  have "mset (concat (map (\<lambda>di. map (\<lambda>dj. inp ! nat (clamp height (i + di) * width + clamp width (j + dj)))
                         [- radius..radius]) ds))
           + mset (map (\<lambda>di. inp ! nat (clamp height (i + di) * width + clamp width (j + radius + 1))) ds)
       = mset (map (\<lambda>di. inp ! nat (clamp height (i + di) * width + clamp width (j - radius))) ds)
           + mset (concat (map (\<lambda>di. map (\<lambda>dj. inp ! nat (clamp height (i + di) * width + clamp width (j + 1 + dj)))
                         [- radius..radius]) ds))" for ds
  proof (induction ds)
    case Nil
    then show ?case by simp
  next
    case (Cons d ds)
    note rs = row_shift[OF assms, of "\<lambda>c. inp ! nat (clamp height (i + d) * width + clamp width c)" j]
    show ?case using Cons.IH rs by (simp add: ac_simps)
  qed
  then show ?thesis by (simp add: window_def)
qed

lemma left_column_in_window:
  assumes "0 \<le> radius"
  shows "mset (map (\<lambda>di. inp ! nat (clamp height (i + di) * width + clamp width (j - radius)))
                 [- radius..radius])
         \<subseteq># mset (window inp i j radius width height)"
proof -
  have a: "[- radius..radius] = (- radius) # [- radius + 1..radius]"
    using assms by (simp add: upto_rec1)
  have "mset (map (\<lambda>di. inp ! nat (clamp height (i + di) * width + clamp width (j - radius))) ds)
         \<subseteq># mset (concat (map (\<lambda>di. map (\<lambda>dj. inp ! nat (clamp height (i + di) * width + clamp width (j + dj)))
                         [- radius..radius]) ds))" for ds
  proof (induction ds)
    case Nil
    then show ?case by simp
  next
    case (Cons d ds)
    have "{#inp ! nat (clamp height (i + d) * width + clamp width (j - radius))#}
        \<subseteq># mset (map (\<lambda>dj. inp ! nat (clamp height (i + d) * width + clamp width (j + dj))) [- radius..radius])"
      by (subst a) simp
    from subset_mset.add_mono[OF this Cons.IH] show ?case by simp
  qed
  then show ?thesis by (simp add: window_def)
qed

lemma shift_ok:
  assumes "0 < width" and "0 < height" and "int (length inp) = width * height"
    and "0 \<le> radius" and "hist_inv H"
    and "hist_mset H = mset (window inp i j radius width height)"
  shows "\<exists>H'. shift_histogram H inp i j radius width height = Inr H' \<and> hist_inv H' \<and>
           hist_mset H' = mset (window inp i (j + 1) radius width height)"
proof -
  let ?L = "\<lambda>di. inp ! nat (clamp height (i + di) * width + clamp width (j - radius))"
  let ?R = "\<lambda>di. inp ! nat (clamp height (i + di) * width + clamp width (j + radius + 1))"
  have sub: "mset (map ?L [- radius..radius]) \<subseteq># hist_mset H"
    unfolding assms(6) using assms(4) by (rule left_column_in_window)
  from shift_loop[OF assms(1,2,3,5) sub, of "j + radius + 1"] obtain H' where
    1: "shift_histogram H inp i j radius width height = Inr H'" and 2: "hist_inv H'"
    and 3: "hist_mset H' + mset (map ?L [- radius..radius])
           = hist_mset H + mset (map ?R [- radius..radius])"
    unfolding shift_histogram_def by blast
  have "hist_mset H' + mset (map ?L [- radius..radius])
      = mset (window inp i (j + 1) radius width height) + mset (map ?L [- radius..radius])"
    unfolding 3 assms(6) using window_shift[OF assms(4), of inp i j width height] by (simp add: ac_simps)
  then have "hist_mset H' = mset (window inp i (j + 1) radius width height)" by simp
  then show ?thesis using 1 2 by blast
qed

subsection \<open>One row\<close>

lemma window_not_empty: "0 \<le> radius \<Longrightarrow> window inp i j radius width height \<noteq> []"
proof -
  assume "0 \<le> radius"
  then have "[- radius..radius] = (- radius) # [- radius + 1..radius]" by (simp add: upto_rec1)
  then show ?thesis by (simp add: window_def)
qed

lemma emit_ok:
  assumes "0 \<le> radius" and "int (length ou) = width * height"
    and "0 \<le> i" "i < height" "0 \<le> j" "j < width"
    and "hist_inv h" and "hist_mset h = mset (window inp i j radius width height)"
  shows "emit_median h ou i j width height
     = Inr (ou[nat (i * width + j) := median_of (window inp i j radius width height)])"
proof -
  have "hist_median h = Inr (median_of (window inp i j radius width height))"
    using assms(7) assms(8)[symmetric] window_not_empty[OF assms(1)] by (rule median_mset)
  moreover have "IDX i j height width = i * width + j"
    using assms(3-6) by (simp add: IDX_clamp clamp_id)
  moreover have "0 \<le> i * width + j \<and> i * width + j < width * height"
    using assms(3-6) by (rule cell_range)
  ultimately show ?thesis using assms(2) by (simp add: emit_median_def buf_write_def)
qed

lemma column_loop:
  assumes "0 \<le> radius" and "0 < width" and "int (length inp) = width * height"
    and "0 \<le> i" and "i < height"
  shows "0 \<le> j \<Longrightarrow> k < width \<Longrightarrow> hist_inv h \<Longrightarrow>
    hist_mset h = mset (window inp i j radius width height) \<Longrightarrow>
    int (length ou) = width * height \<Longrightarrow>
    \<exists>h' ou'. for_each [j..k] (\<lambda>j (h, ou).
                 case emit_median h ou i j width height of
                   Inl e \<Rightarrow> Inl e
                 | Inr ou' \<Rightarrow>
                     (case shift_histogram h inp i j radius width height of
                        Inl e \<Rightarrow> Inl e
                      | Inr h' \<Rightarrow> Inr (h', ou'))) (h, ou) = Inr (h', ou') \<and>
       hist_inv h' \<and>
       hist_mset h' = mset (window inp i (if j \<le> k then k + 1 else j) radius width height) \<and>
       length ou' = length ou \<and>
       (\<forall>p. 0 \<le> p \<and> p < width * height \<longrightarrow>
          ou' ! nat p = (if i * width + j \<le> p \<and> p \<le> i * width + k
                         then median_of (window inp i (p - i * width) radius width height)
                         else ou ! nat p))"
proof (induction j k arbitrary: h ou rule: upto.induct)
  case (1 j k)
  let ?body = "\<lambda>j (h, ou).
                 case emit_median h ou i j width height of
                   Inl e \<Rightarrow> Inl e
                 | Inr ou' \<Rightarrow>
                     (case shift_histogram h inp i j radius width height of
                        Inl e \<Rightarrow> Inl e
                      | Inr h' \<Rightarrow> Inr (h', ou'))"
  have hpos: "0 < height" using assms(4,5) by simp
  show ?case
  proof (cases "j \<le> k")
    case False
    then have "for_each [j..k] ?body (h, ou) = Inr (h, ou)" by simp
    moreover have "hist_mset h = mset (window inp i (if j \<le> k then k + 1 else j) radius width height)"
      using False "1.prems"(4) by simp
    moreover have "\<forall>p. 0 \<le> p \<and> p < width * height \<longrightarrow>
          ou ! nat p = (if i * width + j \<le> p \<and> p \<le> i * width + k
                         then median_of (window inp i (p - i * width) radius width height)
                         else ou ! nat p)"
    proof (intro allI impI)
      fix p
      have "\<not> (i * width + j \<le> p \<and> p \<le> i * width + k)" using False by linarith
      then show "ou ! nat p = (if i * width + j \<le> p \<and> p \<le> i * width + k
                         then median_of (window inp i (p - i * width) radius width height)
                         else ou ! nat p)" by (simp only: if_False)
    qed
    ultimately show ?thesis using "1.prems"(3) by blast
  next
    case True
    then have jw: "j < width" using "1.prems"(2) by simp
    let ?m = "median_of (window inp i j radius width height)"
    let ?ou1 = "ou[nat (i * width + j) := ?m]"
    have em: "emit_median h ou i j width height = Inr ?ou1"
      using assms(1) "1.prems"(5) assms(4,5) "1.prems"(1) jw "1.prems"(3,4) by (rule emit_ok)
    from shift_ok[OF assms(2) hpos assms(3) assms(1) "1.prems"(3,4)] obtain h1 where
      sh: "shift_histogram h inp i j radius width height = Inr h1" and i1: "hist_inv h1"
      and m1: "hist_mset h1 = mset (window inp i (j + 1) radius width height)" by blast
    have l1: "int (length ?ou1) = width * height" using "1.prems"(5) by simp
    have j1: "0 \<le> j + 1" using "1.prems"(1) by simp
    from "1.IH"[OF True j1 "1.prems"(2) i1 m1 l1] obtain h' ou' where
      run: "for_each [j + 1..k] ?body (h1, ?ou1) = Inr (h', ou')" and i': "hist_inv h'"
      and m': "hist_mset h' = mset (window inp i (if j + 1 \<le> k then k + 1 else j + 1) radius width height)"
      and l': "length ou' = length ?ou1"
      and v': "\<forall>p. 0 \<le> p \<and> p < width * height \<longrightarrow>
          ou' ! nat p = (if i * width + (j + 1) \<le> p \<and> p \<le> i * width + k
                         then median_of (window inp i (p - i * width) radius width height)
                         else ?ou1 ! nat p)" by blast
    have "[j..k] = j # [j + 1..k]" using True by (simp add: upto_rec1)
    then have a: "for_each [j..k] ?body (h, ou) = Inr (h', ou')" using em sh run by simp
    have b: "hist_mset h' = mset (window inp i (if j \<le> k then k + 1 else j) radius width height)"
    proof (cases "j + 1 \<le> k")
      case True
      then show ?thesis using m' by simp
    next
      case False
      then have "j = k" using \<open>j \<le> k\<close> by simp
      then show ?thesis using m' by simp
    qed
    have c: "length ou' = length ou" using l' by simp
    have d: "\<forall>p. 0 \<le> p \<and> p < width * height \<longrightarrow>
          ou' ! nat p = (if i * width + j \<le> p \<and> p \<le> i * width + k
                         then median_of (window inp i (p - i * width) radius width height)
                         else ou ! nat p)"
    proof (intro allI impI)
      fix p assume p: "0 \<le> p \<and> p < width * height"
      have cell: "0 \<le> i * width + j" using assms(4,2) "1.prems"(1) by simp
      consider (later) "i * width + (j + 1) \<le> p \<and> p \<le> i * width + k"
        | (here) "p = i * width + j" | (other) "p < i * width + j \<or> i * width + k < p"
        by linarith
      then show "ou' ! nat p = (if i * width + j \<le> p \<and> p \<le> i * width + k
                         then median_of (window inp i (p - i * width) radius width height)
                         else ou ! nat p)"
      proof cases
        case later
        then show ?thesis using v' p by simp
      next
        case here
        have "nat p < length ou" using p "1.prems"(5) by linarith
        then have "?ou1 ! nat p = ?m" using here by simp
        then show ?thesis using v' p here True by simp
      next
        case other
        then have "nat p \<noteq> nat (i * width + j)" using p cell True by linarith
        then have "?ou1 ! nat p = ou ! nat p" by simp
        then show ?thesis using v' p other True by auto
      qed
    qed
    from a i' b c d show ?thesis by blast
  qed
qed

lemma row_of_cell:
  fixes p width i :: int
  assumes "0 < width"
  shows "(i * width \<le> p \<and> p \<le> i * width + (width - 1)) = (p div width = i)"
proof
  assume a: "i * width \<le> p \<and> p \<le> i * width + (width - 1)"
  define r where "r = p - i * width"
  have r: "0 \<le> r" "r < width" and p: "p = r + i * width" using a by (simp_all add: r_def)
  have "p div width = r div width + i" unfolding p using assms by simp
  then show "p div width = i" using r by (simp add: div_pos_pos_trivial)
next
  assume d: "p div width = i"
  have "p = (p div width) * width + p mod width" by simp
  then have "p = i * width + p mod width" unfolding d .
  moreover have "0 \<le> p mod width" "p mod width < width" using assms by simp_all
  ultimately show "i * width \<le> p \<and> p \<le> i * width + (width - 1)" by linarith
qed

lemma col_of_cell:
  fixes p width i :: int
  assumes "p div width = i"
  shows "p mod width = p - i * width"
proof -
  have "p mod width = p - (p div width) * width" by (simp add: minus_div_mult_eq_mod)
  then show ?thesis unfolding assms .
qed

lemma filter_row_ok:
  assumes "0 \<le> radius" and "0 < width" and "int (length inp) = width * height"
    and "0 \<le> i" and "i < height" and "int (length out) = width * height"
  shows "\<exists>h' out'. filter_row inp radius width height i (hist, out) = Inr (h', out') \<and>
           length out' = length out \<and>
           (\<forall>p. 0 \<le> p \<and> p < width * height \<longrightarrow>
              out' ! nat p = (if p div width = i then expected inp radius width height p
                              else out ! nat p))"
proof -
  have hpos: "0 < height" using assms(4,5) by simp
  from fill_ok[OF assms(2) hpos assms(3) inv_clear, of hist i 0 radius] obtain h0 where
    f: "fill_histogram (hist_clear hist) inp i 0 radius width height = Inr h0"
    and i0: "hist_inv h0" and m0: "hist_mset h0 = mset (window inp i 0 radius width height)"
    by auto
  have kw: "width - 2 < width" by simp
  from column_loop[OF assms(1,2,3,4,5) _ kw i0 m0 assms(6)] obtain h1 out1 where
    lp: "for_each [0..width - 2] (\<lambda>j (h, ou).
                 case emit_median h ou i j width height of
                   Inl e \<Rightarrow> Inl e
                 | Inr ou' \<Rightarrow>
                     (case shift_histogram h inp i j radius width height of
                        Inl e \<Rightarrow> Inl e
                      | Inr h' \<Rightarrow> Inr (h', ou'))) (h0, out) = Inr (h1, out1)"
    and i1: "hist_inv h1"
    and m1: "hist_mset h1 = mset (window inp i (if 0 \<le> width - 2 then width - 2 + 1 else 0) radius width height)"
    and l1: "length out1 = length out"
    and v1: "\<forall>p. 0 \<le> p \<and> p < width * height \<longrightarrow>
          out1 ! nat p = (if i * width + 0 \<le> p \<and> p \<le> i * width + (width - 2)
                         then median_of (window inp i (p - i * width) radius width height)
                         else out ! nat p)" by auto
  let ?jf = "if 0 < width - 1 then width - 1 else 0"
  have jf: "?jf = width - 1" using assms(2) by simp
  have jf2: "(if 0 \<le> width - 2 then width - 2 + 1 else 0) = width - 1" using assms(2) by simp
  let ?m = "median_of (window inp i (width - 1) radius width height)"
  let ?out2 = "out1[nat (i * width + (width - 1)) := ?m]"
  have len1: "int (length out1) = width * height" using l1 assms(6) by simp
  have m1': "hist_mset h1 = mset (window inp i (width - 1) radius width height)"
    using m1 unfolding jf2 .
  have "emit_median h1 out1 i (width - 1) width height = Inr ?out2"
    using assms(1) len1 assms(4,5) _ _ i1 m1' by (rule emit_ok) (use assms(2) in simp_all)
  then have em: "emit_median h1 out1 i ?jf width height = Inr ?out2" unfolding jf .
  have run: "filter_row inp radius width height i (hist, out) = Inr (h1, ?out2)"
    using f lp em by (simp add: filter_row_def)
  have vals: "\<forall>p. 0 \<le> p \<and> p < width * height \<longrightarrow>
              ?out2 ! nat p = (if p div width = i then expected inp radius width height p
                              else out ! nat p)"
  proof (intro allI impI)
    fix p assume p: "0 \<le> p \<and> p < width * height"
    have cell: "0 \<le> i * width + (width - 1)" using assms(2,4) by simp
    have row: "(p div width = i) = (i * width \<le> p \<and> p \<le> i * width + (width - 1))"
      using row_of_cell[OF assms(2), of i p] by simp
    consider (last) "p = i * width + (width - 1)"
      | (before) "i * width \<le> p \<and> p \<le> i * width + (width - 2)"
      | (other) "p < i * width \<or> i * width + (width - 1) < p" by linarith
    then show "?out2 ! nat p = (if p div width = i then expected inp radius width height p
                              else out ! nat p)"
    proof cases
      case last
      have "nat p < length out1" using p len1 by linarith
      then have "?out2 ! nat p = ?m" using last by simp
      moreover have d: "p div width = i" using row last assms(2) by simp
      moreover have "p mod width = width - 1" using col_of_cell[OF d] last by simp
      ultimately show ?thesis by (simp add: expected_def)
    next
      case before
      then have "nat p \<noteq> nat (i * width + (width - 1))" using p cell by linarith
      then have "?out2 ! nat p = out1 ! nat p" by simp
      moreover have "out1 ! nat p = median_of (window inp i (p - i * width) radius width height)"
        using v1 p before by simp
      moreover have d: "p div width = i" using row before by simp
      moreover have "p mod width = p - i * width" using d by (rule col_of_cell)
      ultimately show ?thesis by (simp add: expected_def)
    next
      case other
      then have "p \<noteq> i * width + (width - 1)" using assms(2) by linarith
      then have "nat p \<noteq> nat (i * width + (width - 1))" using p cell by (simp add: eq_nat_nat_iff)
      then have "?out2 ! nat p = out1 ! nat p" by simp
      moreover have "out1 ! nat p = out ! nat p" using v1 p other by auto
      moreover have "p div width \<noteq> i" using row other by auto
      ultimately show ?thesis by simp
    qed
  qed
  have "length ?out2 = length out" using l1 by simp
  then show ?thesis using run vals by blast
qed

subsection \<open>All rows\<close>

lemma rows_loop:
  assumes "0 \<le> radius" and "0 < width" and "int (length inp) = width * height"
  shows "(\<forall>i \<in> set rows. 0 \<le> i \<and> i < height) \<Longrightarrow> int (length out) = width * height \<Longrightarrow>
    \<exists>h' out'. for_each rows (filter_row inp radius width height) (hist, out) = Inr (h', out') \<and>
       length out' = length out \<and>
       (\<forall>p. 0 \<le> p \<and> p < width * height \<longrightarrow>
          out' ! nat p = (if p div width \<in> set rows then expected inp radius width height p
                          else out ! nat p))"
proof (induction rows arbitrary: hist out)
  case Nil
  then show ?case by simp
next
  case (Cons i rows)
  from Cons.prems(1) have i: "0 \<le> i" "i < height"
    and rest: "\<forall>i \<in> set rows. 0 \<le> i \<and> i < height" by simp_all
  from filter_row_ok[OF assms i Cons.prems(2), of hist] obtain h1 out1 where
    1: "filter_row inp radius width height i (hist, out) = Inr (h1, out1)"
    and 2: "length out1 = length out"
    and 3: "\<forall>p. 0 \<le> p \<and> p < width * height \<longrightarrow>
              out1 ! nat p = (if p div width = i then expected inp radius width height p
                              else out ! nat p)" by blast
  have l1: "int (length out1) = width * height" using 2 Cons.prems(2) by simp
  from Cons.IH[OF rest l1, of h1] obtain h' out' where
    4: "for_each rows (filter_row inp radius width height) (h1, out1) = Inr (h', out')"
    and 5: "length out' = length out1"
    and 6: "\<forall>p. 0 \<le> p \<and> p < width * height \<longrightarrow>
          out' ! nat p = (if p div width \<in> set rows then expected inp radius width height p
                          else out1 ! nat p)" by blast
  have a: "for_each (i # rows) (filter_row inp radius width height) (hist, out) = Inr (h', out')"
    using 1 4 by simp
  have b: "length out' = length out" using 5 2 by simp
  have c: "\<forall>p. 0 \<le> p \<and> p < width * height \<longrightarrow>
          out' ! nat p = (if p div width \<in> set (i # rows) then expected inp radius width height p
                          else out ! nat p)"
    using 3 6 by auto
  from a b c show ?case by blast
qed

lemma worker_ok:
  assumes "0 \<le> radius" and "0 < width" and "int (length inp) = width * height"
    and "\<forall>i \<in> set rows. 0 \<le> i \<and> i < height" and "int (length out) = width * height"
  shows "\<exists>out'. worker inp radius width height rows out = Inr out' \<and>
       length out' = length out \<and>
       (\<forall>p. 0 \<le> p \<and> p < width * height \<longrightarrow>
          out' ! nat p = (if p div width \<in> set rows then expected inp radius width height p
                          else out ! nat p))"
proof -
  from rows_loop[OF assms, of hist_create] obtain h' out' where
    "for_each rows (filter_row inp radius width height) (hist_create, out) = Inr (h', out')"
    "length out' = length out"
    "\<forall>p. 0 \<le> p \<and> p < width * height \<longrightarrow>
          out' ! nat p = (if p div width \<in> set rows then expected inp radius width height p
                          else out ! nat p)" by blast
  then show ?thesis by (simp add: worker_def)
qed

lemma schedule_loop:
  assumes "0 \<le> radius" and "0 < width" and "int (length inp) = width * height"
  shows "(\<forall>i \<in> set (concat schedule). 0 \<le> i \<and> i < height) \<Longrightarrow>
    int (length out) = width * height \<Longrightarrow>
    \<exists>out'. for_each schedule (worker inp radius width height) out = Inr out' \<and>
       length out' = length out \<and>
       (\<forall>p. 0 \<le> p \<and> p < width * height \<longrightarrow>
          out' ! nat p = (if p div width \<in> set (concat schedule)
                          then expected inp radius width height p else out ! nat p))"
proof (induction schedule arbitrary: out)
  case Nil
  then show ?case by simp
next
  case (Cons rows schedule)
  from Cons.prems(1) have r: "\<forall>i \<in> set rows. 0 \<le> i \<and> i < height"
    and rest: "\<forall>i \<in> set (concat schedule). 0 \<le> i \<and> i < height" by simp_all
  from worker_ok[OF assms r Cons.prems(2)] obtain out1 where
    1: "worker inp radius width height rows out = Inr out1"
    and 2: "length out1 = length out"
    and 3: "\<forall>p. 0 \<le> p \<and> p < width * height \<longrightarrow>
          out1 ! nat p = (if p div width \<in> set rows then expected inp radius width height p
                          else out ! nat p)" by blast
  have l1: "int (length out1) = width * height" using 2 Cons.prems(2) by simp
  from Cons.IH[OF rest l1] obtain out' where
    4: "for_each schedule (worker inp radius width height) out1 = Inr out'"
    and 5: "length out' = length out1"
    and 6: "\<forall>p. 0 \<le> p \<and> p < width * height \<longrightarrow>
          out' ! nat p = (if p div width \<in> set (concat schedule)
                          then expected inp radius width height p else out1 ! nat p)" by blast
  have a: "for_each (rows # schedule) (worker inp radius width height) out = Inr out'"
    using 1 4 by simp
  have b: "length out' = length out" using 5 2 by simp
  have c: "\<forall>p. 0 \<le> p \<and> p < width * height \<longrightarrow>
          out' ! nat p = (if p div width \<in> set (concat (rows # schedule))
                          then expected inp radius width height p else out ! nat p)"
    using 3 6 by auto
  from a b c show ?case by blast
qed

lemma valid_schedule_rows: "valid_schedule height schedule \<Longrightarrow> set (concat schedule) = {0..height - 1}"
proof -
  assume "valid_schedule height schedule"
  then have "set (concat schedule) = set [0..height - 1]"
    unfolding valid_schedule_def by (rule mset_eq_setD)
  then show ?thesis by simp
qed

lemma row_in_range:
  fixes p width height :: int
  assumes "0 < width" and "0 \<le> p" and "p < width * height"
  shows "p div width \<in> {0..height - 1}"
proof -
  have a: "0 \<le> p div width" using assms(1,2) by (simp add: pos_imp_zdiv_nonneg_iff)
  have "p = (p div width) * width + p mod width" by simp
  moreover have "0 \<le> p mod width" using assms(1) by simp
  ultimately have "(p div width) * width \<le> p" by linarith
  moreover have "width * height = height * width" by (rule mult.commute)
  ultimately have "(p div width) * width < height * width" using assms(3) by linarith
  then have "p div width < height" using assms(1) by (simp add: mult_less_cancel_right_pos)
  then show ?thesis using a by simp
qed

lemma filter_ok:
  assumes "valid_schedule height schedule" and "0 \<le> radius" and "0 < width"
    and "int (length inp) = width * height" and "int (length out) = width * height"
  shows "\<exists>out'. median_filter_2D_sparse_byrow schedule inp out [width, height] 2 radius = Inr out' \<and>
       length out' = length out \<and>
       (\<forall>p. 0 \<le> p \<and> p < width * height \<longrightarrow> out' ! nat p = expected inp radius width height p)"
proof -
  have rows: "set (concat schedule) = {0..height - 1}" using assms(1) by (rule valid_schedule_rows)
  then have "\<forall>i \<in> set (concat schedule). 0 \<le> i \<and> i < height" by simp
  from schedule_loop[OF assms(2,3,4) this assms(5)] obtain out' where
    1: "for_each schedule (worker inp radius width height) out = Inr out'"
    and 2: "length out' = length out"
    and 3: "\<forall>p. 0 \<le> p \<and> p < width * height \<longrightarrow>
          out' ! nat p = (if p div width \<in> set (concat schedule)
                          then expected inp radius width height p else out ! nat p)" by blast
  have "buf_read [width, height] DX = Inr width" and "buf_read [width, height] DY = Inr height"
    by (simp_all add: buf_read_def DX_def DY_def)
  then have a: "median_filter_2D_sparse_byrow schedule inp out [width, height] 2 radius = Inr out'"
    using 1 by (simp add: median_filter_2D_sparse_byrow_def)
  have "\<forall>p. 0 \<le> p \<and> p < width * height \<longrightarrow> out' ! nat p = expected inp radius width height p"
  proof (intro allI impI)
    fix p assume p: "0 \<le> p \<and> p < width * height"
    then have "p div width \<in> set (concat schedule)"
      unfolding rows using assms(3) by (intro row_in_range) simp_all
    then show "out' ! nat p = expected inp radius width height p" using 3 p by simp
  qed
  then show ?thesis using a 2 by blast
qed

lemma expected_cell:
  assumes "0 < width" and "0 \<le> j" and "j < width"
  shows "expected inp radius width height (i * width + j)
     = median_of (window inp i j radius width height)"
proof -
  have "i * width \<le> i * width + j \<and> i * width + j \<le> i * width + (width - 1)"
    using assms by simp
  then have d: "(i * width + j) div width = i" using row_of_cell[OF assms(1)] by blast
  have "(i * width + j) mod width = j" using col_of_cell[OF d] by simp
  then show ?thesis using d by (simp add: expected_def)
qed

lemma fresh_median_window:
  assumes "0 \<le> radius" and "0 < width" and "0 < height" and "int (length inp) = width * height"
  shows "fresh_median inp i j radius width height
     = Inr (median_of (window inp i j radius width height))"
proof -
  from fill_ok[OF assms(2,3,4) inv_create, of i j radius] obtain h where
    1: "fill_histogram hist_create inp i j radius width height = Inr h" and 2: "hist_inv h"
    and 3: "hist_mset h = mset (window inp i j radius width height)" by auto
  have "hist_median h = Inr (median_of (window inp i j radius width height))"
    using 2 3[symmetric] window_not_empty[OF assms(1)] by (rule median_mset)
  then show ?thesis using 1 by (simp add: fresh_median_def)
qed

lemma same_cells:
  assumes "length a = length b" and "int (length a) = n"
    and "\<forall>p. 0 \<le> p \<and> p < n \<longrightarrow> a ! nat p = f p"
    and "\<forall>p. 0 \<le> p \<and> p < n \<longrightarrow> b ! nat p = f p"
  shows "a = b"
proof (rule nth_equalityI)
  show "length a = length b" by (rule assms(1))
next
  fix k assume "k < length a"
  then have "0 \<le> int k \<and> int k < n" using assms(2) by simp
  then have "a ! nat (int k) = f (int k)" and "b ! nat (int k) = f (int k)"
    using assms(3,4) by blast+
  then show "a ! k = b ! k" by simp
qed

subsection \<open>The number of samples of a window\<close>

lemma length_concat_map:
  "length (concat (map (\<lambda>x. map (g x) ys) xs)) = length xs * length ys"
  by (induction xs) simp_all

lemma length_window:
  assumes "0 \<le> radius"
  shows "int (length (window inp i j radius width height)) = (2 * radius + 1) * (2 * radius + 1)"
proof -
  have "int (length [- radius..radius]) = 2 * radius + 1" using assms by simp
  then show ?thesis unfolding window_def length_concat_map by simp
qed

lemma window_fits_int:
  "0 \<le> radius \<Longrightarrow> sizes_fit_int radius width height \<Longrightarrow>
   is_c_int (int (length (window inp i j radius width height)))"
proof -
  assume r: "0 \<le> radius" and s: "sizes_fit_int radius width height"
  have "int (length (window inp i j radius width height)) = (2 * radius + 1) * (2 * radius + 1)"
    using r by (rule length_window)
  moreover have "0 \<le> int (length (window inp i j radius width height))" by simp
  ultimately show ?thesis using s by (simp add: sizes_fit_int_def is_c_int_def INT_MIN_def)
qed

lemma size_hist_mset:
  assumes "hist_inv H"
  shows "int (size (hist_mset H)) = counts_or_0 (root H)"
proof -
  from assms have c: "counts_consistent (root H)" and p: "counts_positive (root H)"
    by (simp_all add: hist_inv_def)
  have "int (size (hist_mset H)) = int (length (expand (entries (root H))))"
    by (simp add: hist_mset_def)
  also have "\<dots> = subtree_total (root H)" using p by (rule length_expand_entries)
  also have "\<dots> = counts_or_0 (root H)" using c by (simp add: consistent_counts_total)
  finally show ?thesis .
qed

lemma fill_counts:
  assumes "0 \<le> radius" and "0 < width" and "0 < height" and "int (length inp) = width * height"
    and "hist_inv H" and "root H = Null"
  shows "\<exists>H'. fill_histogram H inp i j radius width height = Inr H' \<and>
           counts_or_0 (root H') = (2 * radius + 1) * (2 * radius + 1)"
proof -
  have e: "hist_mset H = {#}" using assms(6) by (simp add: hist_mset_def)
  from fill_ok[OF assms(2,3,4,5), of i j radius] obtain H' where
    1: "fill_histogram H inp i j radius width height = Inr H'" and 2: "hist_inv H'"
    and 3: "hist_mset H' = hist_mset H + mset (window inp i j radius width height)" by blast
  have "counts_or_0 (root H') = int (size (hist_mset H'))" using 2 by (simp add: size_hist_mset)
  also have "\<dots> = int (length (window inp i j radius width height))" using 3 e by simp
  also have "\<dots> = (2 * radius + 1) * (2 * radius + 1)" using assms(1) by (rule length_window)
  finally show ?thesis using 1 by blast
qed

section \<open>The claims on the row filter\<close>

text \<open>
  C3, as stated: for every radius \<open>\<ge> 0\<close> and every buffer of \<open>width \<times> height\<close> samples the
  filter writes the median of the window at every pixel. The histogram counts the samples of
  a window in the \<^verbatim>\<open>int\<close> fields \<^verbatim>\<open>count\<close> and \<^verbatim>\<open>counts\<close>, and \<^verbatim>\<open>IDX\<close> computes the position of a
  pixel in \<^verbatim>\<open>int\<close>. With radius 23170 the window has \<open>46341 * 46341 = 2147488281\<close> samples:
  on an image of one pixel, the histogram filled for row 0 would have to hold that count,
  which is no \<^verbatim>\<open>int\<close>, so \<^verbatim>\<open>n->count += c\<close> overflows before any median is written. On an image
  of 65536 columns and 32769 rows the position of the first pixel of the last row is no
  \<^verbatim>\<open>int\<close> either.
\<close>

theorem window_of_radius_23170_exceeds_int:
  "int (length (window [7 :: 32 word] 0 0 23170 1 1)) = 2147488281 \<and>
   counts_or_0 (root (projr (fill_histogram (hist_clear hist_create) [7 :: 32 word] 0 0 23170 1 1)))
     = 2147488281 \<and>
   \<not> is_c_int 2147488281 \<and>
   IDX 32768 0 32769 65536 = 2147483648 \<and> \<not> is_c_int 2147483648"
proof -
  have "\<exists>H'. fill_histogram (hist_clear hist_create) [7 :: 32 word] 0 0 23170 1 1 = Inr H' \<and>
           counts_or_0 (root H') = (2 * 23170 + 1) * (2 * 23170 + 1)"
    by (rule fill_counts) (simp_all add: inv_clear, simp add: hist_clear_def)
  then have "counts_or_0 (root (projr (fill_histogram (hist_clear hist_create) [7 :: 32 word] 0 0 23170 1 1)))
     = 2147488281" by auto
  moreover have "int (length (window [7 :: 32 word] 0 0 23170 1 1)) = 2147488281"
    by (simp add: length_window)
  ultimately show ?thesis by (simp add: is_c_int_def INT_MAX_def INT_MIN_def IDX_def)
qed

text \<open>
  C3, amended. For an input buffer of \<open>width \<times> height\<close> samples and a radius \<open>\<ge> 0\<close> whose
  sizes stay in the range of \<^verbatim>\<open>int\<close> (\<open>sizes_fit_int\<close>: the \<open>(2 * radius + 1)\<^sup>2\<close> samples of a
  window, the \<open>width * height\<close> pixels, and the coordinates \<open>height + radius\<close> and
  \<open>width + radius\<close>), the filter returns an output buffer of the same length in which every
  pixel \<open>(i, j)\<close> holds the median (position \<open>length div 2\<close> of the sorted samples) of the
  window of side \<open>2 * radius + 1\<close> centred at \<open>(i, j)\<close>, a coordinate outside the buffer
  being replaced by the nearest row or column inside; this for every assignment of the rows
  to threads. The number of samples of each window and the position of each pixel are
  values of \<^verbatim>\<open>int\<close>. A \<open>5 \<times> 5\<close> buffer holding 0..24 in row-major order, filtered with radius
  1, has 12 at pixel \<open>(2, 2)\<close>.
\<close>

theorem row_filter_writes_window_medians:
  "(valid_schedule height schedule \<and> 0 \<le> radius \<and> 0 < width \<and>
    sizes_fit_int radius width height \<and>
    int (length inp) = width * height \<and> int (length out) = width * height \<longrightarrow>
      (\<exists>out'. median_filter_2D_sparse_byrow schedule inp out [width, height] 2 radius = Inr out' \<and>
         length out' = length out \<and>
         (\<forall>i j. 0 \<le> i \<and> i < height \<and> 0 \<le> j \<and> j < width \<longrightarrow>
            out' ! nat (IDX i j height width) = median_of (window inp i j radius width height) \<and>
            is_c_int (int (length (window inp i j radius width height))) \<and>
            is_c_int (IDX i j height width)))) \<and>
   (valid_schedule 5 schedule5 \<longrightarrow>
      (\<exists>out'. median_filter_2D_sparse_byrow schedule5
           [0, 1, 2, 3, 4, 5, 6, 7, 8, 9, 10, 11, 12, 13, 14, 15, 16, 17, 18, 19, 20, 21, 22, 23, 24 :: 32 word]
           (replicate 25 0) [5, 5] 2 1 = Inr out' \<and>
         out' ! nat (IDX 2 2 5 5) = 12))"
proof (intro conjI impI)
  assume a: "valid_schedule height schedule \<and> 0 \<le> radius \<and> 0 < width \<and>
    sizes_fit_int radius width height \<and>
    int (length inp) = width * height \<and> int (length out) = width * height"
  then have w: "0 < width" and r: "0 \<le> radius" and s: "sizes_fit_int radius width height" by blast+
  from a filter_ok[of height schedule radius width inp out] obtain out' where
    1: "median_filter_2D_sparse_byrow schedule inp out [width, height] 2 radius = Inr out'"
    and 2: "length out' = length out"
    and 3: "\<forall>p. 0 \<le> p \<and> p < width * height \<longrightarrow> out' ! nat p = expected inp radius width height p"
    by blast
  have "\<forall>i j. 0 \<le> i \<and> i < height \<and> 0 \<le> j \<and> j < width \<longrightarrow>
            out' ! nat (IDX i j height width) = median_of (window inp i j radius width height) \<and>
            is_c_int (int (length (window inp i j radius width height))) \<and>
            is_c_int (IDX i j height width)"
  proof (intro allI impI)
    fix i j assume c: "0 \<le> i \<and> i < height \<and> 0 \<le> j \<and> j < width"
    then have idx: "IDX i j height width = i * width + j" by (simp add: IDX_clamp clamp_id)
    have rng: "0 \<le> i * width + j \<and> i * width + j < width * height"
      using c by (intro cell_range) simp_all
    have "expected inp radius width height (i * width + j)
        = median_of (window inp i j radius width height)"
      using w c by (intro expected_cell) simp_all
    then have m: "out' ! nat (IDX i j height width)
        = median_of (window inp i j radius width height)" using 3 idx rng by simp
    have f: "is_c_int (int (length (window inp i j radius width height)))"
      using r s by (rule window_fits_int)
    have "is_c_int (IDX i j height width)"
      using idx rng s by (simp add: sizes_fit_int_def is_c_int_def INT_MIN_def)
    then show "out' ! nat (IDX i j height width) = median_of (window inp i j radius width height) \<and>
            is_c_int (int (length (window inp i j radius width height))) \<and>
            is_c_int (IDX i j height width)" using m f by blast
  qed
  then show "\<exists>out'. median_filter_2D_sparse_byrow schedule inp out [width, height] 2 radius = Inr out' \<and>
         length out' = length out \<and>
         (\<forall>i j. 0 \<le> i \<and> i < height \<and> 0 \<le> j \<and> j < width \<longrightarrow>
            out' ! nat (IDX i j height width) = median_of (window inp i j radius width height) \<and>
            is_c_int (int (length (window inp i j radius width height))) \<and>
            is_c_int (IDX i j height width))"
    using 1 2 by blast
next
  let ?inp = "[0, 1, 2, 3, 4, 5, 6, 7, 8, 9, 10, 11, 12, 13, 14, 15, 16, 17, 18, 19, 20, 21, 22, 23, 24 :: 32 word]"
  assume v: "valid_schedule 5 schedule5"
  have "int (length ?inp) = 5 * 5" and "int (length (replicate 25 (0 :: 32 word))) = 5 * 5" by simp_all
  from filter_ok[OF v _ _ this, of 1] obtain out' where
    1: "median_filter_2D_sparse_byrow schedule5 ?inp (replicate 25 0) [5, 5] 2 1 = Inr out'"
    and 3: "\<forall>p. 0 \<le> p \<and> p < 5 * 5 \<longrightarrow> out' ! nat p = expected ?inp 1 5 5 p" by auto
  have "out' ! nat 12 = expected ?inp 1 5 5 12" using 3[rule_format, of 12] by simp
  also have "\<dots> = median_of (window ?inp 2 2 1 5 5)" by (simp add: expected_def)
  also have "window ?inp 2 2 1 5 5 = [6, 7, 8, 11, 12, 13, 16, 17, 18]"
    by (simp add: window_def clamp_def upto.simps)
  also have "median_of [6, 7, 8, 11, 12, 13, 16, 17, 18 :: 32 word] = 12"
    by (simp add: median_of_def)
  finally have "out' ! nat (IDX 2 2 5 5) = 12" by (simp add: IDX_def)
  then show "\<exists>out'. median_filter_2D_sparse_byrow schedule5 ?inp (replicate 25 0) [5, 5] 2 1 = Inr out' \<and>
         out' ! nat (IDX 2 2 5 5) = 12" using 1 by blast
qed

theorem row_filter_writes_window_medians_witness:
  "valid_schedule 2 [[1], [0]] \<and> (0 :: int) \<le> 1 \<and> (0 :: int) < 2 \<and> sizes_fit_int 1 2 2 \<and>
   int (length [3, 1, 4, 2 :: 32 word]) = 2 * 2 \<and> int (length [0, 0, 0, 0 :: 32 word]) = 2 * 2 \<and>
   (\<exists>out'. median_filter_2D_sparse_byrow [[1], [0]] [3, 1, 4, 2 :: 32 word] [0, 0, 0, 0] [2, 2] 2 1 = Inr out' \<and>
      length out' = 4 \<and> out' ! 0 = 3 \<and> out' ! 3 = 2) \<and>
   valid_schedule 5 [[0, 2, 4], [1, 3]] \<and>
   (\<exists>out'. median_filter_2D_sparse_byrow [[0, 2, 4], [1, 3]]
        [0, 1, 2, 3, 4, 5, 6, 7, 8, 9, 10, 11, 12, 13, 14, 15, 16, 17, 18, 19, 20, 21, 22, 23, 24 :: 32 word]
        (replicate 25 0) [5, 5] 2 1 = Inr out' \<and>
      out' ! nat (IDX 2 2 5 5) = 12)"
proof -
  let ?inp = "[3, 1, 4, 2 :: 32 word]"
  let ?out = "[0, 0, 0, 0 :: 32 word]"
  have v: "valid_schedule 2 [[1], [0]]" by (simp add: valid_schedule_def upto.simps)
  have l: "int (length ?inp) = 2 * 2" "int (length ?out) = 2 * 2" by simp_all
  have f: "sizes_fit_int 1 2 2" by (simp add: sizes_fit_int_def INT_MAX_def)
  have pre: "valid_schedule 2 [[1], [0]] \<and> (0 :: int) \<le> 1 \<and> (0 :: int) < 2 \<and> sizes_fit_int 1 2 2 \<and>
      int (length ?inp) = 2 * 2 \<and> int (length ?out) = 2 * 2" using v l f by simp
  from row_filter_writes_window_medians[where height = 2 and schedule = "[[1], [0]]"
      and radius = 1 and width = 2 and inp = ?inp and out = ?out, THEN conjunct1, rule_format, OF pre]
  obtain out' where
    1: "median_filter_2D_sparse_byrow [[1], [0]] ?inp ?out [2, 2] 2 1 = Inr out'"
    and 2: "length out' = length ?out"
    and 3: "\<forall>i j. 0 \<le> i \<and> i < 2 \<and> 0 \<le> j \<and> j < 2 \<longrightarrow>
            out' ! nat (IDX i j 2 2) = median_of (window ?inp i j 1 2 2) \<and>
            is_c_int (int (length (window ?inp i j 1 2 2))) \<and> is_c_int (IDX i j 2 2)" by blast
  have "out' ! nat (IDX 0 0 2 2) = median_of (window ?inp 0 0 1 2 2)"
    using 3[rule_format, of 0 0] by simp
  moreover have "window ?inp 0 0 1 2 2 = [3, 3, 1, 3, 3, 1, 4, 4, 2]"
    by (simp add: window_def clamp_def upto.simps)
  moreover have "median_of [3, 3, 1, 3, 3, 1, 4, 4, 2 :: 32 word] = 3" by (simp add: median_of_def)
  ultimately have a: "out' ! 0 = 3" by (simp add: IDX_def)
  have "out' ! nat (IDX 1 1 2 2) = median_of (window ?inp 1 1 1 2 2)"
    using 3[rule_format, of 1 1] by simp
  moreover have "window ?inp 1 1 1 2 2 = [3, 1, 1, 4, 2, 2, 4, 2, 2]"
    by (simp add: window_def clamp_def upto.simps)
  moreover have "median_of [3, 1, 1, 4, 2, 2, 4, 2, 2 :: 32 word] = 2" by (simp add: median_of_def)
  ultimately have b: "out' ! 3 = 2" by (simp add: IDX_def)
  have small: "\<exists>out'. median_filter_2D_sparse_byrow [[1], [0]] ?inp ?out [2, 2] 2 1 = Inr out' \<and>
      length out' = 4 \<and> out' ! 0 = 3 \<and> out' ! 3 = 2" using 1 2 a b by auto
  have v5: "valid_schedule 5 [[0, 2, 4], [1, 3]]" by (simp add: valid_schedule_def upto.simps)
  note five = row_filter_writes_window_medians[where ?schedule5.0 = "[[0, 2, 4], [1, 3]]",
      THEN conjunct2, rule_format, OF v5]
  have a: "(0 :: int) \<le> 1" "(0 :: int) < 2" by simp_all
  from v a f l small v5 five show ?thesis by blast
qed

text \<open>
  C4, as stated: for every row, every radius and every input buffer the medians produced
  incrementally are those of histograms filled from scratch. With radius 23170 neither
  sequence is produced: on an image of two columns and one row, the histogram filled for
  column 0 of the incremental run and the histogram filled from scratch for column 1 would
  both have to hold 2147488281 samples, which is no \<^verbatim>\<open>int\<close>.
\<close>

theorem fresh_histogram_of_radius_23170_exceeds_int:
  "int (length (window [7, 9 :: 32 word] 0 1 23170 2 1)) = 2147488281 \<and>
   counts_or_0 (root (projr (fill_histogram (hist_clear hist_create) [7, 9 :: 32 word] 0 0 23170 2 1)))
     = 2147488281 \<and>
   counts_or_0 (root (projr (fill_histogram hist_create [7, 9 :: 32 word] 0 1 23170 2 1)))
     = 2147488281 \<and>
   \<not> is_c_int 2147488281"
proof -
  have "\<exists>H'. fill_histogram (hist_clear hist_create) [7, 9 :: 32 word] 0 0 23170 2 1 = Inr H' \<and>
           counts_or_0 (root H') = (2 * 23170 + 1) * (2 * 23170 + 1)"
    by (rule fill_counts) (simp_all add: inv_clear, simp add: hist_clear_def)
  then have a: "counts_or_0 (root (projr (fill_histogram (hist_clear hist_create) [7, 9 :: 32 word] 0 0 23170 2 1)))
     = 2147488281" by auto
  have "\<exists>H'. fill_histogram hist_create [7, 9 :: 32 word] 0 1 23170 2 1 = Inr H' \<and>
           counts_or_0 (root H') = (2 * 23170 + 1) * (2 * 23170 + 1)"
    by (rule fill_counts) (simp_all add: inv_create, simp add: hist_create_def)
  then have b: "counts_or_0 (root (projr (fill_histogram hist_create [7, 9 :: 32 word] 0 1 23170 2 1)))
     = 2147488281" by auto
  have c: "int (length (window [7, 9 :: 32 word] 0 1 23170 2 1)) = 2147488281"
    by (simp add: length_window)
  from a b c show ?thesis by (simp add: is_c_int_def INT_MAX_def INT_MIN_def)
qed

text \<open>
  C4, amended. For every row \<open>i\<close> of the buffer, every radius \<open>\<ge> 0\<close> and every input buffer
  whose sizes stay in the range of \<^verbatim>\<open>int\<close> (\<open>sizes_fit_int\<close>), the row is filtered without error
  and the medians written for the columns \<open>0 .. width - 1\<close> (the histogram filled once for
  column 0, then shifted from one column to the next by deleting the samples of the column
  that leaves and inserting those of the column that enters) are the medians of histograms
  filled from scratch at every column. The histogram the thread arrives with and the
  contents of the output buffer do not matter; the number of samples of every window is an
  \<^verbatim>\<open>int\<close>.
\<close>

theorem incremental_row_equals_fresh_histograms:
  assumes "0 \<le> radius" and "0 < width" and "0 \<le> i" and "i < height"
    and "sizes_fit_int radius width height"
    and "int (length inp) = width * height" and "int (length out) = width * height"
  shows "\<exists>h' out'. filter_row inp radius width height i (hist, out) = Inr (h', out') \<and>
           map (\<lambda>j. Inr (out' ! nat (IDX i j height width))) [0..width - 1]
             = map (\<lambda>j. fresh_median inp i j radius width height) [0..width - 1] \<and>
           (\<forall>j. is_c_int (int (length (window inp i j radius width height))))"
proof -
  have hpos: "0 < height" using assms(3,4) by simp
  from filter_row_ok[OF assms(1,2,6,3,4,7), of hist] obtain h' out' where
    1: "filter_row inp radius width height i (hist, out) = Inr (h', out')"
    and 3: "\<forall>p. 0 \<le> p \<and> p < width * height \<longrightarrow>
              out' ! nat p = (if p div width = i then expected inp radius width height p
                              else out ! nat p)" by blast
  have "Inr (out' ! nat (IDX i j height width)) = fresh_median inp i j radius width height"
    if j: "j \<in> set [0..width - 1]" for j
  proof -
    from j have jr: "0 \<le> j" "j < width" by simp_all
    have idx: "IDX i j height width = i * width + j"
      using assms(3,4) jr by (simp add: IDX_clamp clamp_id)
    have rng: "0 \<le> i * width + j \<and> i * width + j < width * height"
      using assms(3,4) jr by (rule cell_range)
    have "i * width \<le> i * width + j \<and> i * width + j \<le> i * width + (width - 1)" using jr by simp
    then have d: "(i * width + j) div width = i" using row_of_cell[OF assms(2)] by blast
    have "out' ! nat (i * width + j) = expected inp radius width height (i * width + j)"
      using 3 rng d by simp
    also have "\<dots> = median_of (window inp i j radius width height)"
      using assms(2) jr by (rule expected_cell)
    finally show ?thesis
      unfolding idx fresh_median_window[OF assms(1,2) hpos assms(6)] by simp
  qed
  then have "map (\<lambda>j. Inr (out' ! nat (IDX i j height width))) [0..width - 1]
             = map (\<lambda>j. fresh_median inp i j radius width height) [0..width - 1]"
    by (intro map_cong) simp_all
  moreover have "\<forall>j. is_c_int (int (length (window inp i j radius width height)))"
    using window_fits_int[OF assms(1,5)] by blast
  ultimately show ?thesis using 1 by blast
qed

theorem incremental_row_equals_fresh_histograms_witness:
  "(0 :: int) \<le> 1 \<and> (0 :: int) < 2 \<and> (0 :: int) \<le> 0 \<and> (0 :: int) < 2 \<and> sizes_fit_int 1 2 2 \<and>
   int (length [3, 1, 4, 2 :: 32 word]) = 2 * 2 \<and> int (length [0, 0, 0, 0 :: 32 word]) = 2 * 2 \<and>
   (\<exists>h' out'. filter_row [3, 1, 4, 2 :: 32 word] 1 2 2 0 (hist_create, [0, 0, 0, 0]) = Inr (h', out') \<and>
      map (\<lambda>j. Inr (out' ! nat (IDX 0 j 2 2))) [0..2 - 1]
        = map (\<lambda>j. fresh_median [3, 1, 4, 2 :: 32 word] 0 j 1 2 2) [0..2 - 1])"
proof -
  have a: "(0 :: int) \<le> 1" "(0 :: int) < 2" "(0 :: int) \<le> 0" by simp_all
  have f: "sizes_fit_int 1 2 2" by (simp add: sizes_fit_int_def INT_MAX_def)
  have l: "int (length [3, 1, 4, 2 :: 32 word]) = 2 * 2" "int (length [0, 0, 0, 0 :: 32 word]) = 2 * 2"
    by simp_all
  from incremental_row_equals_fresh_histograms[OF a(1) a(2) a(3) a(2) f l, of hist_create] a f l
  show ?thesis by blast
qed

text \<open>
  C9, as stated: two runs of the filter on the same input, width, height and radius give the
  same output buffer, whatever the assignment of the rows to threads. With radius 23170 no
  assignment gives an output buffer: on an image of \<open>2 \<times> 2\<close> pixels, whether a thread
  begins with row 0 or with row 1, the histogram it fills would have to hold 2147488281
  samples, which is no \<^verbatim>\<open>int\<close>, and the behaviour of the program is undefined.
\<close>

theorem rows_of_radius_23170_exceed_int:
  "valid_schedule 2 [[0, 1]] \<and> valid_schedule 2 [[1], [0]] \<and>
   int (length (window [3, 1, 4, 2 :: 32 word] 0 0 23170 2 2)) = 2147488281 \<and>
   int (length (window [3, 1, 4, 2 :: 32 word] 1 0 23170 2 2)) = 2147488281 \<and>
   counts_or_0 (root (projr (fill_histogram (hist_clear hist_create) [3, 1, 4, 2 :: 32 word] 0 0 23170 2 2)))
     = 2147488281 \<and>
   counts_or_0 (root (projr (fill_histogram (hist_clear hist_create) [3, 1, 4, 2 :: 32 word] 1 0 23170 2 2)))
     = 2147488281 \<and>
   \<not> is_c_int 2147488281"
proof -
  have v: "valid_schedule 2 [[0, 1]]" "valid_schedule 2 [[1], [0]]"
    by (simp_all add: valid_schedule_def upto.simps)
  have "\<exists>H'. fill_histogram (hist_clear hist_create) [3, 1, 4, 2 :: 32 word] 0 0 23170 2 2 = Inr H' \<and>
           counts_or_0 (root H') = (2 * 23170 + 1) * (2 * 23170 + 1)"
    by (rule fill_counts) (simp_all add: inv_clear, simp add: hist_clear_def)
  then have a: "counts_or_0 (root (projr (fill_histogram (hist_clear hist_create) [3, 1, 4, 2 :: 32 word] 0 0 23170 2 2)))
     = 2147488281" by auto
  have "\<exists>H'. fill_histogram (hist_clear hist_create) [3, 1, 4, 2 :: 32 word] 1 0 23170 2 2 = Inr H' \<and>
           counts_or_0 (root H') = (2 * 23170 + 1) * (2 * 23170 + 1)"
    by (rule fill_counts) (simp_all add: inv_clear, simp add: hist_clear_def)
  then have b: "counts_or_0 (root (projr (fill_histogram (hist_clear hist_create) [3, 1, 4, 2 :: 32 word] 1 0 23170 2 2)))
     = 2147488281" by auto
  have c: "int (length (window [3, 1, 4, 2 :: 32 word] 0 0 23170 2 2)) = 2147488281"
    "int (length (window [3, 1, 4, 2 :: 32 word] 1 0 23170 2 2)) = 2147488281"
    by (simp_all add: length_window)
  from v a b c show ?thesis by (simp add: is_c_int_def INT_MAX_def INT_MIN_def)
qed

text \<open>
  C9, amended. For sizes that stay in the range of \<^verbatim>\<open>int\<close> (\<open>sizes_fit_int\<close>), the output does
  not depend on how the rows are assigned to the threads, nor on the number of threads, nor
  on what the output buffer held before: for the same input buffer, width, height and
  radius, any two assignments that run every row once, started on any two output buffers,
  give the same output buffer, so two runs of the filter do. A row is computed from the
  input samples and the radius only: whatever histogram a thread carries from its previous
  row and whatever the output buffer holds, filtering row \<open>i\<close> writes the medians of the
  windows of row \<open>i\<close> into the pixels of that row and leaves every other pixel as it was.
  (The threads are run one after the other; the interleaving of their steps is not
  modelled.)
\<close>

theorem output_independent_of_schedule:
  assumes "valid_schedule height schedule1" and "valid_schedule height schedule2"
    and "0 \<le> radius" and "0 < width" and "sizes_fit_int radius width height"
    and "int (length inp) = width * height"
    and "int (length out1) = width * height" and "int (length out2) = width * height"
  shows "(\<exists>out'. median_filter_2D_sparse_byrow schedule1 inp out1 [width, height] 2 radius = Inr out' \<and>
            median_filter_2D_sparse_byrow schedule2 inp out2 [width, height] 2 radius = Inr out') \<and>
         (0 \<le> i \<and> i < height \<longrightarrow>
            (\<exists>h1 h2 o1 o2.
               filter_row inp radius width height i (hist1, out1) = Inr (h1, o1) \<and>
               filter_row inp radius width height i (hist2, out2) = Inr (h2, o2) \<and>
               (\<forall>j. 0 \<le> j \<and> j < width \<longrightarrow>
                  o1 ! nat (IDX i j height width) = median_of (window inp i j radius width height) \<and>
                  o2 ! nat (IDX i j height width) = median_of (window inp i j radius width height)) \<and>
               (\<forall>p. 0 \<le> p \<and> p < width * height \<and> p div width \<noteq> i \<longrightarrow>
                  o1 ! nat p = out1 ! nat p \<and> o2 ! nat p = out2 ! nat p)))"
proof
  from filter_ok[OF assms(1,3,4,6,7)] obtain o1 where
    1: "median_filter_2D_sparse_byrow schedule1 inp out1 [width, height] 2 radius = Inr o1"
    and l1: "length o1 = length out1"
    and v1: "\<forall>p. 0 \<le> p \<and> p < width * height \<longrightarrow> o1 ! nat p = expected inp radius width height p"
    by blast
  from filter_ok[OF assms(2,3,4,6,8)] obtain o2 where
    2: "median_filter_2D_sparse_byrow schedule2 inp out2 [width, height] 2 radius = Inr o2"
    and l2: "length o2 = length out2"
    and v2: "\<forall>p. 0 \<le> p \<and> p < width * height \<longrightarrow> o2 ! nat p = expected inp radius width height p"
    by blast
  have "length o1 = length o2" using l1 l2 assms(7,8) by simp
  moreover have "int (length o1) = width * height" using l1 assms(7) by simp
  ultimately have "o1 = o2" using v1 v2 by (rule same_cells)
  then show "\<exists>out'. median_filter_2D_sparse_byrow schedule1 inp out1 [width, height] 2 radius = Inr out' \<and>
            median_filter_2D_sparse_byrow schedule2 inp out2 [width, height] 2 radius = Inr out'"
    using 1 2 by blast
next
  show "0 \<le> i \<and> i < height \<longrightarrow>
            (\<exists>h1 h2 o1 o2.
               filter_row inp radius width height i (hist1, out1) = Inr (h1, o1) \<and>
               filter_row inp radius width height i (hist2, out2) = Inr (h2, o2) \<and>
               (\<forall>j. 0 \<le> j \<and> j < width \<longrightarrow>
                  o1 ! nat (IDX i j height width) = median_of (window inp i j radius width height) \<and>
                  o2 ! nat (IDX i j height width) = median_of (window inp i j radius width height)) \<and>
               (\<forall>p. 0 \<le> p \<and> p < width * height \<and> p div width \<noteq> i \<longrightarrow>
                  o1 ! nat p = out1 ! nat p \<and> o2 ! nat p = out2 ! nat p))"
  proof
    assume i: "0 \<le> i \<and> i < height"
    then have i1: "0 \<le> i" and i2: "i < height" by blast+
    from filter_row_ok[OF assms(3,4,6) i1 i2 assms(7), of hist1] obtain h1 o1 where
      1: "filter_row inp radius width height i (hist1, out1) = Inr (h1, o1)"
      and v1: "\<forall>p. 0 \<le> p \<and> p < width * height \<longrightarrow>
              o1 ! nat p = (if p div width = i then expected inp radius width height p
                              else out1 ! nat p)" by blast
    from filter_row_ok[OF assms(3,4,6) i1 i2 assms(8), of hist2] obtain h2 o2 where
      2: "filter_row inp radius width height i (hist2, out2) = Inr (h2, o2)"
      and v2: "\<forall>p. 0 \<le> p \<and> p < width * height \<longrightarrow>
              o2 ! nat p = (if p div width = i then expected inp radius width height p
                              else out2 ! nat p)" by blast
    have row: "o1 ! nat (IDX i j height width) = median_of (window inp i j radius width height) \<and>
               o2 ! nat (IDX i j height width) = median_of (window inp i j radius width height)"
      if jr: "0 \<le> j \<and> j < width" for j
    proof -
      have idx: "IDX i j height width = i * width + j"
        using i jr by (simp add: IDX_clamp clamp_id)
      have rng: "0 \<le> i * width + j \<and> i * width + j < width * height"
        using i jr by (intro cell_range) simp_all
      have "i * width \<le> i * width + j \<and> i * width + j \<le> i * width + (width - 1)" using jr by simp
      then have d: "(i * width + j) div width = i" using row_of_cell[OF assms(4)] by blast
      have e: "expected inp radius width height (i * width + j)
          = median_of (window inp i j radius width height)"
        using assms(4) jr by (intro expected_cell) simp_all
      show ?thesis using v1 v2 rng d e idx by simp
    qed
    have rest: "o1 ! nat p = out1 ! nat p \<and> o2 ! nat p = out2 ! nat p"
      if "0 \<le> p \<and> p < width * height \<and> p div width \<noteq> i" for p
      using v1 v2 that by simp
    from 1 2 row rest show "\<exists>h1 h2 o1 o2.
               filter_row inp radius width height i (hist1, out1) = Inr (h1, o1) \<and>
               filter_row inp radius width height i (hist2, out2) = Inr (h2, o2) \<and>
               (\<forall>j. 0 \<le> j \<and> j < width \<longrightarrow>
                  o1 ! nat (IDX i j height width) = median_of (window inp i j radius width height) \<and>
                  o2 ! nat (IDX i j height width) = median_of (window inp i j radius width height)) \<and>
               (\<forall>p. 0 \<le> p \<and> p < width * height \<and> p div width \<noteq> i \<longrightarrow>
                  o1 ! nat p = out1 ! nat p \<and> o2 ! nat p = out2 ! nat p)"
      by blast
  qed
qed

theorem output_independent_of_schedule_witness:
  "valid_schedule 2 [[0, 1]] \<and> valid_schedule 2 [[1], [], [0]] \<and> (0 :: int) \<le> 1 \<and> (0 :: int) < 2 \<and>
   sizes_fit_int 1 2 2 \<and>
   int (length [3, 1, 4, 2 :: 32 word]) = 2 * 2 \<and> int (length [0, 0, 0, 0 :: 32 word]) = 2 * 2 \<and>
   int (length [9, 8, 7, 6 :: 32 word]) = 2 * 2 \<and>
   (\<exists>out'. median_filter_2D_sparse_byrow [[0, 1]] [3, 1, 4, 2 :: 32 word] [0, 0, 0, 0] [2, 2] 2 1 = Inr out' \<and>
      median_filter_2D_sparse_byrow [[1], [], [0]] [3, 1, 4, 2 :: 32 word] [9, 8, 7, 6] [2, 2] 2 1 = Inr out') \<and>
   (\<exists>h1 h2 o1 o2.
      filter_row [3, 1, 4, 2 :: 32 word] 1 2 2 1 (hist_create, [0, 0, 0, 0]) = Inr (h1, o1) \<and>
      filter_row [3, 1, 4, 2 :: 32 word] 1 2 2 1 (\<lparr>root = Node 7 1 1 Null Null\<rparr>, [9, 8, 7, 6]) = Inr (h2, o2) \<and>
      o1 ! 2 = o2 ! 2 \<and> o1 ! 3 = o2 ! 3 \<and> o1 ! 0 = 0 \<and> o2 ! 0 = 9)"
proof -
  let ?inp = "[3, 1, 4, 2 :: 32 word]"
  let ?a = "[0, 0, 0, 0 :: 32 word]"
  let ?b = "[9, 8, 7, 6 :: 32 word]"
  have v: "valid_schedule 2 [[0, 1]]" "valid_schedule 2 [[1], [], [0]]"
    by (simp_all add: valid_schedule_def upto.simps)
  have a: "(0 :: int) \<le> 1" "(0 :: int) < 2" by simp_all
  have f: "sizes_fit_int 1 2 2" by (simp add: sizes_fit_int_def INT_MAX_def)
  have l: "int (length ?inp) = 2 * 2" "int (length ?a) = 2 * 2" "int (length ?b) = 2 * 2"
    by simp_all
  have i: "(0 :: int) \<le> 1 \<and> (1 :: int) < 2" by simp
  note t = output_independent_of_schedule[OF v a f l, of 1 hist_create "\<lparr>root = Node 7 1 1 Null Null\<rparr>"]
  from t i obtain h1 h2 o1 o2 where
    1: "filter_row ?inp 1 2 2 1 (hist_create, ?a) = Inr (h1, o1)"
    and 2: "filter_row ?inp 1 2 2 1 (\<lparr>root = Node 7 1 1 Null Null\<rparr>, ?b) = Inr (h2, o2)"
    and 3: "\<forall>j. 0 \<le> j \<and> j < 2 \<longrightarrow>
                  o1 ! nat (IDX 1 j 2 2) = median_of (window ?inp 1 j 1 2 2) \<and>
                  o2 ! nat (IDX 1 j 2 2) = median_of (window ?inp 1 j 1 2 2)"
    and 4: "\<forall>p. 0 \<le> p \<and> p < 2 * 2 \<and> p div 2 \<noteq> 1 \<longrightarrow>
                  o1 ! nat p = ?a ! nat p \<and> o2 ! nat p = ?b ! nat p" by blast
  have "o1 ! nat (IDX 1 0 2 2) = o2 ! nat (IDX 1 0 2 2)" using 3[rule_format, of 0] by simp
  then have c2: "o1 ! 2 = o2 ! 2" by (simp add: IDX_def)
  have "o1 ! nat (IDX 1 1 2 2) = o2 ! nat (IDX 1 1 2 2)" using 3[rule_format, of 1] by simp
  then have c3: "o1 ! 3 = o2 ! 3" by (simp add: IDX_def eval_nat_numeral)
  have c0: "o1 ! 0 = 0" "o2 ! 0 = 9" using 4[rule_format, of 0] by simp_all
  have r: "\<exists>h1 h2 o1 o2.
      filter_row ?inp 1 2 2 1 (hist_create, ?a) = Inr (h1, o1) \<and>
      filter_row ?inp 1 2 2 1 (\<lparr>root = Node 7 1 1 Null Null\<rparr>, ?b) = Inr (h2, o2) \<and>
      o1 ! 2 = o2 ! 2 \<and> o1 ! 3 = o2 ! 3 \<and> o1 ! 0 = 0 \<and> o2 ! 0 = 9"
    using 1 2 c2 c3 c0 by blast
  from t v a f l r show ?thesis by blast
qed

end
